theory Spec2Isabelle
  imports Main "HOL-Library.Word"
begin

section \<open>The v4 UDP discovery transport (p2p/discover/v4\_udp.go)\<close>

text \<open>
  A shallow embedding of the parts of \<^verbatim>\<open>v4_udp.go\<close> that answer inbound requests
  (\<^verbatim>\<open>handlePacket\<close>, \<^verbatim>\<open>verifyFindnode\<close>, \<^verbatim>\<open>handleFindnode\<close>,
  \<^verbatim>\<open>verifyENRRequest\<close>, \<^verbatim>\<open>handleENRRequest\<close>), of the reply dispatcher
  (\<^verbatim>\<open>pending\<close>, \<^verbatim>\<open>handleReply\<close>, \<^verbatim>\<open>loop\<close>), and of the callers
  \<^verbatim>\<open>findnode\<close> and \<^verbatim>\<open>Resolve\<close>.

  Durations are \<open>int\<close> nanoseconds (Go's \<^verbatim>\<open>time.Duration\<close>), and so is the clock
  of the packet handlers; the \<^verbatim>\<open>time.Time\<close> values of the dispatcher carry a wall
  clock and a monotonic clock reading. Byte slices are lists of 8-bit words. Packages that the file imports and that are not
  part of it (the wire codec \<^verbatim>\<open>v4wire\<close>, \<^verbatim>\<open>netutil\<close>, the routing table, the
  node database, the socket) appear as fields of an environment record: every theorem
  holds for whatever these functions compute, unless it names an assumption on them.
\<close>

subsection \<open>Errors and constants\<close>

datatype error =
    errExpired | errUnsolicitedReply | errUnknownNode | errTimeout
  | errClockWarp | errClosed | errLowPort | errOther string

fun Error :: "error \<Rightarrow> string" where
  "Error errExpired = ''expired''"
| "Error errUnsolicitedReply = ''unsolicited reply''"
| "Error errUnknownNode = ''unknown node''"
| "Error errTimeout = ''RPC timeout''"
| "Error errClockWarp = ''reply deadline too far in the future''"
| "Error errClosed = ''socket closed''"
| "Error errLowPort = ''low port''"
| "Error (errOther s) = s"

definition errExpiredStr :: string where
  "errExpiredStr = Error errExpired"

definition errUnsolicitedReplyStr :: string where
  "errUnsolicitedReplyStr = Error errUnsolicitedReply"

definition errUnknownNodeStr :: string where
  "errUnknownNodeStr = Error errUnknownNode"

definition millisecond :: int where
  "millisecond = 1000000"

definition second :: int where
  "second = 1000000000"

definition respTimeout :: int where
  "respTimeout = 750 * millisecond"

definition expiration :: int where
  "expiration = 20 * second"

definition bondExpiration :: int where
  "bondExpiration = 24 * (3600 * second)"

definition maxPacketSize :: nat where
  "maxPacketSize = 1280"

text \<open>
  Modelled from the spec: the constant \<^verbatim>\<open>bucketSize\<close> is declared in the routing
  table's file, which is not among the sources; the specification gives k = 16.
\<close>

definition bucketSize :: nat where
  "bucketSize = 16"

text \<open>
  Modelled from the spec: the constant \<^verbatim>\<open>v4wire.MaxNeighbors\<close> is declared in the
  wire codec, which is not among the sources; the specification gives 12.
\<close>

definition MaxNeighbors :: nat where
  "MaxNeighbors = 12"

subsection \<open>Packets\<close>

type_synonym bytes = "8 word list"
type_synonym enodeID = "256 word"
type_synonym Pubkey = bytes

record UDPAddr =
  addrIP :: bytes
  addrPort :: int

record Endpoint =
  epIP :: bytes
  epUDP :: "16 word"
  epTCP :: "16 word"

text \<open>\<^verbatim>\<open>v4wire.Node\<close>, the node entry of a Neighbors packet.\<close>

record rpcNode =
  rnID :: Pubkey
  rnIP :: bytes
  rnUDP :: "16 word"
  rnTCP :: "16 word"

text \<open>
  The six packet kinds, with the fields the file reads and writes.
  \<open>Ping version from to expiration enrseq\<close>, \<open>Pong to replyTok expiration enrseq\<close>,
  \<open>Findnode target expiration\<close>, \<open>Neighbors nodes expiration\<close>,
  \<open>ENRRequest expiration\<close>, \<open>ENRResponse replyTok record\<close>.
\<close>

datatype packet =
    Ping nat Endpoint Endpoint "64 word" "64 word"
  | Pong Endpoint bytes "64 word" "64 word"
  | Findnode Pubkey "64 word"
  | Neighbors "rpcNode list" "64 word"
  | ENRRequest "64 word"
  | ENRResponse bytes bytes

fun Kind :: "packet \<Rightarrow> nat" where
  "Kind (Ping _ _ _ _ _) = 1"
| "Kind (Pong _ _ _ _) = 2"
| "Kind (Findnode _ _) = 3"
| "Kind (Neighbors _ _) = 4"
| "Kind (ENRRequest _) = 5"
| "Kind (ENRResponse _ _) = 6"

definition NeighborsPacket :: nat where
  "NeighborsPacket = 4"

text \<open>A node of the routing table, as far as \<^verbatim>\<open>handleFindnode\<close> and \<^verbatim>\<open>nodeToRPC\<close> read it.
  \<open>nKey\<close> is the result of loading the secp256k1 key, already encoded; \<open>None\<close> when
  \<^verbatim>\<open>n.Load\<close> fails.\<close>

record tnode =
  nID :: enodeID
  nIP :: bytes
  nUDP :: int
  nTCP :: int
  nKey :: "Pubkey option"
  nSeq :: "64 word"

definition nodeToRPC :: "tnode \<Rightarrow> rpcNode" where
  "nodeToRPC n =
     \<lparr> rnID = (case nKey n of Some k \<Rightarrow> k | None \<Rightarrow> replicate 64 0),
       rnIP = nIP n,
       rnUDP = word_of_int (nUDP n),
       rnTCP = word_of_int (nTCP n) \<rparr>"

subsection \<open>Transport state and environment\<close>

text \<open>
  The mutable state touched by the inbound handlers: the error counters
  (\<^verbatim>\<open>t.errors\<close>, a missing key reads 0), the last-pong times of the node database, and
  the datagrams handed to \<^verbatim>\<open>conn.WriteToUDP\<close>, in order.
\<close>

record udp_state =
  errors :: "string \<Rightarrow> nat"
  lastPongReceived :: "enodeID \<times> bytes \<Rightarrow> int"
  outbox :: "(UDPAddr \<times> bytes) list"

text \<open>
  What the handlers call outside the file. \<open>Encode\<close> is \<^verbatim>\<open>v4wire.Encode\<close> with the
  local key (datagram and hash, or an error), \<open>Decode\<close> is \<^verbatim>\<open>v4wire.Decode\<close>,
  \<open>Expired\<close> is \<^verbatim>\<open>v4wire.Expired\<close>, \<open>CheckRelayIP\<close> is
  \<^verbatim>\<open>netutil.CheckRelayIP\<close> (\<open>None\<close> for a nil error), \<open>findnodeByID\<close> is the table's
  query (its \<^verbatim>\<open>entries\<close>), \<open>pubkeyID\<close> is \<^verbatim>\<open>enode.PubkeyEncoded(k).ID()\<close>,
  \<open>WriteErr\<close> is the error \<^verbatim>\<open>WriteToUDP\<close> returns, \<open>netrestrict\<close> is
  \<^verbatim>\<open>t.netrestrict\<close> with its \<^verbatim>\<open>Contains\<close> (\<open>None\<close> for nil), \<open>DecodePubkey\<close> the error of
  \<^verbatim>\<open>v4wire.DecodePubkey\<close>, \<open>ValidateComplete\<close> the method of that name, \<open>now\<close> is \<^verbatim>\<open>time.Now()\<close> and
  \<open>localRecord\<close> the local node's record. \<open>otherVerify\<close> and \<open>pingHandle\<close> stand for
  the four verifiers of Ping, Pong, Neighbors and ENRResponse and for \<^verbatim>\<open>handlePing\<close>.
\<close>

record env =
  Encode :: "packet \<Rightarrow> error + (bytes \<times> bytes)"
  Decode :: "bytes \<Rightarrow> error + (packet \<times> Pubkey \<times> bytes)"
  Expired :: "64 word \<Rightarrow> bool"
  CheckRelayIP :: "bytes \<Rightarrow> bytes \<Rightarrow> error option"
  findnodeByID :: "enodeID \<Rightarrow> nat \<Rightarrow> bool \<Rightarrow> tnode list"
  pubkeyID :: "Pubkey \<Rightarrow> enodeID"
  WriteErr :: "bytes \<Rightarrow> UDPAddr \<Rightarrow> error option"
  netrestrict :: "(bytes \<Rightarrow> bool) option"
  DecodePubkey :: "Pubkey \<Rightarrow> error option"
  ValidateComplete :: "tnode \<Rightarrow> error option"
  now :: int
  localRecord :: bytes
  otherVerify :: "packet \<Rightarrow> UDPAddr \<Rightarrow> enodeID \<Rightarrow> Pubkey \<Rightarrow> udp_state \<Rightarrow> udp_state \<times> error option"
  pingHandle :: "packet \<Rightarrow> UDPAddr \<Rightarrow> enodeID \<Rightarrow> bytes \<Rightarrow> udp_state \<Rightarrow> udp_state"

definition count_error :: "string \<Rightarrow> udp_state \<Rightarrow> udp_state" where
  "count_error k st = st\<lparr>errors := (errors st)(k := errors st k + 1)\<rparr>"

definition write_udp :: "env \<Rightarrow> UDPAddr \<Rightarrow> bytes \<Rightarrow> udp_state \<Rightarrow> udp_state \<times> error option" where
  "write_udp e toaddr pkt st = (st\<lparr>outbox := outbox st @ [(toaddr, pkt)]\<rparr>, WriteErr e pkt toaddr)"

definition send :: "env \<Rightarrow> UDPAddr \<Rightarrow> packet \<Rightarrow> udp_state \<Rightarrow> udp_state \<times> error option" where
  "send e toaddr req st =
     (case Encode e req of
        Inl err \<Rightarrow> (st, Some err)
      | Inr (pkt, hash) \<Rightarrow> write_udp e toaddr pkt st)"

definition checkBond :: "env \<Rightarrow> udp_state \<Rightarrow> enodeID \<Rightarrow> bytes \<Rightarrow> bool" where
  "checkBond e st ident ip \<longleftrightarrow> now e - lastPongReceived st (ident, ip) < bondExpiration"

definition expiry_stamp :: "env \<Rightarrow> 64 word" where
  "expiry_stamp e = word_of_int ((now e + expiration) div second)"

subsection \<open>Findnode and ENRRequest\<close>

text \<open>
  Each verifier and handler starts with a type assertion on the packet, which panics on
  another packet kind; \<^verbatim>\<open>wrapPacket\<close> pairs every function with its own kind only,
  and the last case of each definition below, which stands for the panic, is never reached
  from \<^verbatim>\<open>handlePacket\<close>. \<^verbatim>\<open>time.Since\<close> is the difference of the two times.
\<close>

definition verifyFindnode :: "env \<Rightarrow> packet \<Rightarrow> UDPAddr \<Rightarrow> enodeID \<Rightarrow> udp_state \<Rightarrow> udp_state \<times> error option" where
  "verifyFindnode e req from fromID st =
     (case req of
        Findnode target exp \<Rightarrow>
          if Expired e exp then (count_error errExpiredStr st, Some errExpired)
          else if \<not> checkBond e st fromID (addrIP from)
            then (count_error errUnknownNodeStr st, Some errUnknownNode)
          else (st, None)
      | _ \<Rightarrow> (st, None))"

text \<open>
  The loop of \<^verbatim>\<open>handleFindnode\<close> over \<^verbatim>\<open>closest\<close>. The accumulator is
  (\<^verbatim>\<open>p.Nodes\<close>, \<^verbatim>\<open>sent\<close>, state).
\<close>

fun neighbors_loop ::
  "env \<Rightarrow> UDPAddr \<Rightarrow> 64 word \<Rightarrow> tnode list \<Rightarrow> rpcNode list \<times> bool \<times> udp_state
     \<Rightarrow> rpcNode list \<times> bool \<times> udp_state" where
  "neighbors_loop e from exp [] acc = acc"
| "neighbors_loop e from exp (n # ns) (pn, sent, st) =
     (let pn1 = (if CheckRelayIP e (addrIP from) (nIP n) = None then pn @ [nodeToRPC n] else pn)
      in if length pn1 = MaxNeighbors
         then neighbors_loop e from exp ns ([], True, fst (send e from (Neighbors pn1 exp) st))
         else neighbors_loop e from exp ns (pn1, sent, st))"

definition handleFindnode :: "env \<Rightarrow> packet \<Rightarrow> UDPAddr \<Rightarrow> enodeID \<Rightarrow> udp_state \<Rightarrow> udp_state" where
  "handleFindnode e req from fromID st =
     (case req of
        Findnode tgt exp0 \<Rightarrow>
          (let target = pubkeyID e tgt;
               closest = findnodeByID e target bucketSize True;
               exp = expiry_stamp e;
               (pn, sent, st1) = neighbors_loop e from exp closest ([], False, st)
           in if length pn > 0 \<or> \<not> sent then fst (send e from (Neighbors pn exp) st1) else st1)
      | _ \<Rightarrow> st)"

definition verifyENRRequest :: "env \<Rightarrow> packet \<Rightarrow> UDPAddr \<Rightarrow> enodeID \<Rightarrow> udp_state \<Rightarrow> udp_state \<times> error option" where
  "verifyENRRequest e req from fromID st =
     (case req of
        ENRRequest exp \<Rightarrow>
          if Expired e exp then (count_error errExpiredStr st, Some errExpired)
          else if \<not> checkBond e st fromID (addrIP from)
            then (count_error errUnknownNodeStr st, Some errUnknownNode)
          else (st, None)
      | _ \<Rightarrow> (st, None))"

definition handleENRRequest :: "env \<Rightarrow> UDPAddr \<Rightarrow> bytes \<Rightarrow> udp_state \<Rightarrow> udp_state" where
  "handleENRRequest e from mac st =
     (case send e from (ENRResponse mac (localRecord e)) st of
        (st1, Some err) \<Rightarrow> count_error (Error err) st1
      | (st1, None) \<Rightarrow> st1)"

subsection \<open>Packet dispatch\<close>

text \<open>
  \<^verbatim>\<open>wrapPacket\<close> followed by the two calls of \<^verbatim>\<open>handlePacket\<close>: \<open>preverify\<close> runs the
  verifier the packet kind selects, \<open>handle\<close> its handler (Pong, Neighbors and
  ENRResponse have none).
\<close>

definition preverify :: "env \<Rightarrow> packet \<Rightarrow> UDPAddr \<Rightarrow> enodeID \<Rightarrow> Pubkey \<Rightarrow> udp_state \<Rightarrow> udp_state \<times> error option" where
  "preverify e p from fromID fromKey st =
     (case p of
        Findnode _ _ \<Rightarrow> verifyFindnode e p from fromID st
      | ENRRequest _ \<Rightarrow> verifyENRRequest e p from fromID st
      | _ \<Rightarrow> otherVerify e p from fromID fromKey st)"

definition handle :: "env \<Rightarrow> packet \<Rightarrow> UDPAddr \<Rightarrow> enodeID \<Rightarrow> bytes \<Rightarrow> udp_state \<Rightarrow> udp_state" where
  "handle e p from fromID mac st =
     (case p of
        Ping _ _ _ _ _ \<Rightarrow> pingHandle e p from fromID mac st
      | Findnode _ _ \<Rightarrow> handleFindnode e p from fromID st
      | ENRRequest _ \<Rightarrow> handleENRRequest e from mac st
      | _ \<Rightarrow> st)"

definition handlePacket :: "env \<Rightarrow> UDPAddr \<Rightarrow> bytes \<Rightarrow> udp_state \<Rightarrow> udp_state \<times> error option" where
  "handlePacket e from buf st =
     (case Decode e buf of
        Inl err \<Rightarrow> (st, Some err)
      | Inr (rawpacket, fromKey, hash) \<Rightarrow>
          (let fromID = pubkeyID e fromKey;
               (st1, err) = preverify e rawpacket from fromID fromKey st
           in if err = None then (handle e rawpacket from fromID hash st1, err) else (st1, err)))"

subsection \<open>Time\<close>

text \<open>
  A \<^verbatim>\<open>time.Time\<close> of Go's standard library holds a wall clock reading and, when it
  comes from \<^verbatim>\<open>time.Now()\<close>, a reading of the monotonic clock of the process, which
  never goes back, whatever happens to the system clock. \<^verbatim>\<open>Add\<close> moves both readings;
  \<^verbatim>\<open>Sub\<close> and \<^verbatim>\<open>Before\<close> use the monotonic readings when both times have one and
  the wall clock readings otherwise; \<^verbatim>\<open>time.Unix\<close> makes a time without monotonic
  reading. Readings are nanoseconds, the wall clock since the Unix epoch, the monotonic
  clock since the start of the process. (Go's durations saturate at 64 bits; here they
  are unbounded.)

  A \<open>reading\<close> is what the two clocks show at one instant: \<^verbatim>\<open>time.Now()\<close> at that
  instant is \<open>time_Now\<close> of it.
\<close>

record gotime =
  tWall :: int
  tMono :: "int option"

record reading =
  rdWall :: int
  rdMono :: int

definition time_Now :: "reading \<Rightarrow> gotime" where
  "time_Now c = \<lparr> tWall = rdWall c, tMono = Some (rdMono c) \<rparr>"

definition time_Unix :: "int \<Rightarrow> int \<Rightarrow> gotime" where
  "time_Unix sec nsec = \<lparr> tWall = sec * second + nsec, tMono = None \<rparr>"

definition time_Add :: "gotime \<Rightarrow> int \<Rightarrow> gotime" where
  "time_Add t d = \<lparr> tWall = tWall t + d, tMono = map_option (\<lambda>m. m + d) (tMono t) \<rparr>"

definition time_Sub :: "gotime \<Rightarrow> gotime \<Rightarrow> int" where
  "time_Sub t u =
     (case tMono t of
        Some a \<Rightarrow> (case tMono u of Some b \<Rightarrow> a - b | None \<Rightarrow> tWall t - tWall u)
      | None \<Rightarrow> tWall t - tWall u)"

definition time_Before :: "gotime \<Rightarrow> gotime \<Rightarrow> bool" where
  "time_Before t u =
     (case tMono t of
        Some a \<Rightarrow> (case tMono u of Some b \<Rightarrow> a < b | None \<Rightarrow> tWall t < tWall u)
      | None \<Rightarrow> tWall t < tWall u)"

text \<open>The zero \<^verbatim>\<open>time.Time\<close> (January 1 of year 1), the value of a field never set.\<close>

definition zeroTime :: gotime where
  "zeroTime = \<lparr> tWall = - 62135596800 * second, tMono = None \<rparr>"

subsection \<open>Reply matchers and the dispatcher state\<close>

text \<open>
  A \<^verbatim>\<open>replyMatcher\<close>. The callback is a Go closure: \<open>rmVars\<close> holds the variables it
  captures and updates, \<open>rmCallback\<close> maps them and the packet to
  \<^verbatim>\<open>(matched, requestDone)\<close> and the updated variables. \<open>rmErrc\<close> is the sequence of
  values sent on \<^verbatim>\<open>errc\<close> so far (\<open>None\<close> is Go's nil error). The channel has
  capacity 1: a second send blocks until the first value has been taken.
\<close>

record 's replyMatcher =
  rmFrom :: enodeID
  rmIP :: bytes
  rmPort :: int
  rmPtype :: nat
  rmDeadline :: gotime
  rmCallback :: "'s \<Rightarrow> packet \<Rightarrow> (bool \<times> bool) \<times> 's"
  rmVars :: 's
  rmErrc :: "error option list"
  rmReply :: "packet option"

record reply =
  rFrom :: enodeID
  rIP :: bytes
  rPort :: int
  rData :: packet

text \<open>
  The state shared by \<^verbatim>\<open>pending\<close>, \<^verbatim>\<open>handleReply\<close> and the two goroutines of
  \<^verbatim>\<open>loop\<close>. Matchers are heap objects: \<open>heap\<close> maps a pointer to the object,
  \<open>nalloc\<close> is the next fresh pointer, \<open>plist\<close> is the list of pointers in
  \<^verbatim>\<open>plist\<close>, front first. \<open>addReplyMatcher\<close> is the content of that channel
  (\<open>None\<close> once the field is set to nil) and \<open>listUpdate\<close> the content of the channel
  of that name (\<open>None\<close> for a nil element); both channels are made with capacity 10.
  \<open>loopSends\<close> are the values that the main goroutine of \<^verbatim>\<open>loop\<close> has still to send
  on \<^verbatim>\<open>listUpdate\<close> before it comes back to its \<^verbatim>\<open>select\<close>. \<open>timer\<close> is the
  reading of the monotonic clock from which the timer fires (\<open>None\<close> when it is stopped
  or has fired), \<open>closeCtx\<close> whether the context is cancelled, \<open>loopRunning\<close> and
  \<open>timerRunning\<close> whether the main goroutine of \<^verbatim>\<open>loop\<close> and its timer goroutine have
  not returned yet, \<open>driftChecks\<close> the number of \<^verbatim>\<open>checkClockDrift\<close> goroutines
  started. \<open>lastClock\<close> is the latest reading of the monotonic clock that any of them
  has taken: a later \<^verbatim>\<open>time.Now()\<close> cannot read less.
\<close>

record 's dispatcher =
  heap :: "nat \<Rightarrow> 's replyMatcher"
  nalloc :: nat
  addReplyMatcher :: "nat list option"
  closeCtx :: bool
  plist :: "nat list"
  nextTimeout :: "nat option"
  timer :: "int option"
  contTimeouts :: nat
  ntpWarnTime :: gotime
  driftChecks :: nat
  listUpdate :: "nat option list"
  loopSends :: "nat option list"
  loopRunning :: bool
  timerRunning :: bool
  replyTimeout :: int
  lastClock :: int

definition ntpFailureThreshold :: nat where
  "ntpFailureThreshold = 32"

definition ntpWarningCooldown :: int where
  "ntpWarningCooldown = 10 * (60 * second)"

text \<open>\<^verbatim>\<open>make(chan *replyMatcher, 10)\<close> and \<^verbatim>\<open>make(chan *list.Element, 10)\<close>.\<close>

definition addReplyMatcherCap :: nat where
  "addReplyMatcherCap = 10"

definition listUpdateCap :: nat where
  "listUpdateCap = 10"

text \<open>\<^verbatim>\<open>p.errc <- v\<close>.\<close>

definition deliver :: "error option \<Rightarrow> nat \<Rightarrow> 's dispatcher \<Rightarrow> 's dispatcher" where
  "deliver v p st = st\<lparr>heap := (heap st)(p := (heap st p)\<lparr>rmErrc := rmErrc (heap st p) @ [v]\<rparr>)\<rparr>"

text \<open>
  \<^verbatim>\<open>net.IP.Equal\<close> of Go's standard library: equal byte slices, or an IPv4 address
  and its 16-byte IPv4-in-IPv6 form.
\<close>

definition v4InV6Prefix :: bytes where
  "v4InV6Prefix = replicate 10 0 @ [255, 255]"

definition ipEqual :: "bytes \<Rightarrow> bytes \<Rightarrow> bool" where
  "ipEqual ip x =
     (if length ip = length x then ip = x
      else if length ip = 4 \<and> length x = 16 then take 12 x = v4InV6Prefix \<and> ip = drop 12 x
      else if length ip = 16 \<and> length x = 4 then take 12 ip = v4InV6Prefix \<and> drop 12 ip = x
      else False)"

text \<open>
  The initial state of \<^verbatim>\<open>loop\<close> for a transport made by \<^verbatim>\<open>ListenV4\<close>, once the
  timer goroutine has taken the first tick of its timer; \<open>h\<close> is the (unused) initial
  heap and \<open>rt\<close> the \<^verbatim>\<open>replyTimeout\<close> of the configuration.
\<close>

definition init_dispatcher :: "(nat \<Rightarrow> 's replyMatcher) \<Rightarrow> int \<Rightarrow> 's dispatcher" where
  "init_dispatcher h rt =
     \<lparr> heap = h, nalloc = 0, addReplyMatcher = Some [], closeCtx = False, plist = [],
       nextTimeout = None, timer = None, contTimeouts = 0, ntpWarnTime = time_Unix 0 0,
       driftChecks = 0, listUpdate = [], loopSends = [], loopRunning = True,
       timerRunning = True, replyTimeout = rt, lastClock = 0 \<rparr>"

subsection \<open>pending\<close>

text \<open>
  \<^verbatim>\<open>pending\<close> allocates the matcher and either hands it to the loop or sends
  \<^verbatim>\<open>errClosed\<close> on its channel. When the context is cancelled and the channel has
  room for the matcher, Go's \<^verbatim>\<open>select\<close> may take either case: \<open>takeDone\<close> says it takes
  \<^verbatim>\<open>closeCtx.Done()\<close>. When the channel is full, only that case can be taken, and the
  call waits as long as the context is not cancelled: the result is \<open>None\<close> then, and
  the pointer and the new state otherwise.
\<close>

definition pending ::
  "bool \<Rightarrow> enodeID \<Rightarrow> bytes \<Rightarrow> int \<Rightarrow> nat \<Rightarrow> ('s \<Rightarrow> packet \<Rightarrow> (bool \<times> bool) \<times> 's) \<Rightarrow> 's
     \<Rightarrow> 's dispatcher \<Rightarrow> (nat \<times> 's dispatcher) option" where
  "pending takeDone ident ip port ptype callback vars st =
     (let p = nalloc st;
          m = \<lparr> rmFrom = ident, rmIP = ip, rmPort = port, rmPtype = ptype, rmDeadline = zeroTime,
                rmCallback = callback, rmVars = vars, rmErrc = [], rmReply = None \<rparr>;
          st1 = st\<lparr>heap := (heap st)(p := m), nalloc := Suc p\<rparr>
      in case addReplyMatcher st1 of
           None \<Rightarrow> Some (p, deliver (Some errClosed) p st1)
         | Some q \<Rightarrow>
             if length q < addReplyMatcherCap \<and> \<not> (closeCtx st1 \<and> takeDone)
               then Some (p, st1\<lparr>addReplyMatcher := Some (q @ [p])\<rparr>)
             else if closeCtx st1 then Some (p, deliver (Some errClosed) p st1)
             else None)"

subsection \<open>The loops over the pending list\<close>

text \<open>
  All three loops have the shape
  \<^verbatim>\<open>for el := plist.Front(); el != nil; el = el.Next() { ... plist.Remove(el) ... }\<close>.
  In Go's \<^verbatim>\<open>container/list\<close>, \<^verbatim>\<open>Remove\<close> clears the \<^verbatim>\<open>next\<close> and \<^verbatim>\<open>list\<close> fields
  of the element it unlinks, and \<^verbatim>\<open>Next\<close> of an element that is in no list is nil.
  So the iteration that removes its element is the last one of the loop: the functions
  below recurse on the elements still to visit and return after a removal.
\<close>

text \<open>The loop of \<^verbatim>\<open>case r := <-t.gotreply\<close>; the accumulator is the state,
  \<^verbatim>\<open>matched\<close> and \<^verbatim>\<open>removals\<close>.\<close>

fun reply_loop ::
  "reply \<Rightarrow> nat list \<Rightarrow> 's dispatcher \<times> bool \<times> nat list \<Rightarrow> 's dispatcher \<times> bool \<times> nat list" where
  "reply_loop r [] acc = acc"
| "reply_loop r (el # els) (st, matched, removals) =
     (let p = heap st el in
      if rmPtype p = Kind (rData r) \<and> ipEqual (rmIP p) (rIP r) \<and> rmPort p = rPort r then
        (let ((ok, requestDone), vars) = rmCallback p (rmVars p) (rData r);
             p1 = p\<lparr>rmVars := vars, rmReply := Some (rData r)\<rparr>;
             st1 = st\<lparr>heap := (heap st)(el := p1)\<rparr>
         in if requestDone
            then ((deliver None el st1)\<lparr>plist := remove1 el (plist st1), contTimeouts := 0\<rparr>,
                  matched \<or> ok, removals @ [el])
            else reply_loop r els (st1\<lparr>contTimeouts := 0\<rparr>, matched \<or> ok, removals))
      else reply_loop r els (st, matched, removals))"

text \<open>
  The whole case up to the sends on \<^verbatim>\<open>listUpdate\<close>, which are left in \<open>loopSends\<close>:
  each of them waits for room in the channel.
\<close>

definition loop_gotreply :: "reply \<Rightarrow> 's dispatcher \<Rightarrow> bool \<times> 's dispatcher" where
  "loop_gotreply r st =
     (let (st1, matched, removals) = reply_loop r (plist st) (st, False, [])
      in (matched, st1\<lparr>loopSends := map Some removals\<rparr>))"

text \<open>
  \<^verbatim>\<open>handleReply\<close>: the reply goes to the loop and the caller waits for the answer, or
  the context is cancelled and the answer is false. \<open>None\<close>: the call does not return
  in this state (the loop has returned or is not at its \<^verbatim>\<open>select\<close>).
\<close>

definition handleReply ::
  "bool \<Rightarrow> enodeID \<Rightarrow> bytes \<Rightarrow> int \<Rightarrow> packet \<Rightarrow> 's dispatcher \<Rightarrow> (bool \<times> 's dispatcher) option" where
  "handleReply takeDone fromID fromIP port req st =
     (if closeCtx st \<and> takeDone then Some (False, st)
      else if loopRunning st \<and> loopSends st = []
        then Some (loop_gotreply \<lparr>rFrom = fromID, rIP = fromIP, rPort = port, rData = req\<rparr> st)
      else None)"

text \<open>
  \<^verbatim>\<open>case p := <-t.addReplyMatcher\<close> up to the send on \<^verbatim>\<open>listUpdate\<close>, with \<open>clock\<close>
  the reading of the clocks when the case runs.
\<close>

definition loop_add :: "reading \<Rightarrow> nat \<Rightarrow> 's dispatcher \<Rightarrow> 's dispatcher" where
  "loop_add clock p st =
     st\<lparr>heap := (heap st)(p := (heap st p)\<lparr>rmDeadline := time_Add (time_Now clock) (replyTimeout st)\<rparr>),
        plist := plist st @ [p],
        loopSends := [Some p]\<rparr>"

text \<open>
  \<^verbatim>\<open>resetTimeout\<close>, with \<open>clock\<close> the reading of the clocks when it runs.
  \<^verbatim>\<open>timeout.Reset(dist)\<close> makes the timer fire once \<open>dist\<close> has passed on the
  monotonic clock, at once if \<open>dist\<close> is not positive.
\<close>

fun reset_loop :: "reading \<Rightarrow> nat list \<Rightarrow> 's dispatcher \<Rightarrow> 's dispatcher" where
  "reset_loop clock [] st = st\<lparr>nextTimeout := None, timer := None\<rparr>"
| "reset_loop clock (el # els) st =
     (let dist = time_Sub (rmDeadline (heap st el)) (time_Now clock) in
      if dist < 2 * replyTimeout st
      then st\<lparr>nextTimeout := Some el, timer := Some (rdMono clock + max dist 0)\<rparr>
      else reset_loop clock []
             ((deliver (Some errClockWarp) el st)\<lparr>nextTimeout := Some el, plist := remove1 el (plist st)\<rparr>))"

definition resetTimeout :: "reading \<Rightarrow> 's dispatcher \<Rightarrow> 's dispatcher" where
  "resetTimeout clock st =
     (case plist st of
        [] \<Rightarrow> st
      | front # _ \<Rightarrow> if nextTimeout st = Some front then st else reset_loop clock (plist st) st)"

text \<open>The loop of \<^verbatim>\<open>case now := <-timeout.C\<close>.\<close>

fun timeout_loop :: "reading \<Rightarrow> nat list \<Rightarrow> 's dispatcher \<Rightarrow> 's dispatcher" where
  "timeout_loop tnow [] st = st"
| "timeout_loop tnow (el # els) st =
     (if \<not> time_Before (time_Now tnow) (rmDeadline (heap st el))
      then (deliver (Some errTimeout) el st)\<lparr>plist := remove1 el (plist st),
                                             contTimeouts := Suc (contTimeouts st)\<rparr>
      else timeout_loop tnow els st)"

text \<open>
  The whole case: \<open>tnow\<close> is the reading that the timer sent on \<^verbatim>\<open>timeout.C\<close> when it
  fired, \<open>clock\<close> the reading of the clocks when the case runs.
\<close>

definition timer_timeout :: "reading \<Rightarrow> reading \<Rightarrow> 's dispatcher \<Rightarrow> 's dispatcher" where
  "timer_timeout tnow clock st =
     (let st1 = timeout_loop tnow (plist st) (st\<lparr>nextTimeout := None\<rparr>);
          st2 = (if contTimeouts st1 > ntpFailureThreshold
                 then (if time_Sub (time_Now clock) (ntpWarnTime st1) \<ge> ntpWarningCooldown
                       then st1\<lparr>ntpWarnTime := time_Now clock, driftChecks := Suc (driftChecks st1)\<rparr>
                       else st1)\<lparr>contTimeouts := 0\<rparr>
                 else st1)
      in resetTimeout clock st2)"

text \<open>
  \<^verbatim>\<open>case <-t.closeCtx.Done()\<close> of the main goroutine. Its first statement is the send
  of nil on \<^verbatim>\<open>listUpdate\<close>, which waits for room in the channel: \<open>None\<close> when there is
  none.
\<close>

definition loop_close :: "'s dispatcher \<Rightarrow> 's dispatcher option" where
  "loop_close st =
     (if length (listUpdate st) < listUpdateCap then
        (let st1 = st\<lparr>listUpdate := listUpdate st @ [None]\<rparr>;
             st2 = fold (deliver (Some errClosed)) (plist st1) st1;
             st3 = (case addReplyMatcher st2 of
                      None \<Rightarrow> st2
                    | Some q \<Rightarrow> fold (deliver (Some errClosed)) q st2)
         in Some (st3\<lparr>addReplyMatcher := None, loopRunning := False\<rparr>))
      else None)"

subsection \<open>Runs of the dispatcher\<close>

text \<open>
  The bodies above run under one mutex, so a run of the dispatcher is a sequence of them.
  \<open>Add\<close>, \<open>GotReply\<close> and \<open>Close\<close> are cases of the main goroutine's \<^verbatim>\<open>select\<close>,
  which it reaches when it has nothing left to send on \<^verbatim>\<open>listUpdate\<close>; \<open>Flush\<close> is
  one such send, possible while the channel holds fewer than 10 elements. \<open>Timeout\<close>,
  \<open>ListUpdate\<close> and \<open>TimerDone\<close> are the cases of the timer goroutine's \<^verbatim>\<open>select\<close>;
  \<open>Cancel\<close> is \<^verbatim>\<open>cancelCloseCtx\<close>, \<open>Pending\<close> a call of \<^verbatim>\<open>pending\<close>. \<open>step\<close> is
  \<open>None\<close> when the case cannot be taken, or cannot get past its first send, in the
  state. The timer goroutine returns only through \<open>TimerDone\<close> or a nil
  \<^verbatim>\<open>listUpdate\<close>, and stops its timer then: while its timer has fired, its
  \<^verbatim>\<open>select\<close> may take \<^verbatim>\<open>timeout.C\<close> although the context is cancelled.

  The events that read the clocks carry the reading. The monotonic clock never goes back:
  a reading below \<open>lastClock\<close> cannot be taken. The wall clock is free. The timer fires
  when the monotonic clock has reached the instant it was set for, and the reading it
  sends was taken then, not later than the one the case takes when it runs.
\<close>

datatype 's event =
    Pending bool enodeID bytes int nat "'s \<Rightarrow> packet \<Rightarrow> (bool \<times> bool) \<times> 's" 's
  | Add reading
  | Flush
  | GotReply reply
  | Cancel
  | Close
  | Timeout reading reading
  | ListUpdate reading
  | TimerDone

fun step :: "'s event \<Rightarrow> 's dispatcher \<Rightarrow> 's dispatcher option" where
  "step (Pending takeDone ident ip port ptype cb vars) st =
     map_option snd (pending takeDone ident ip port ptype cb vars st)"
| "step (Add clock) st =
     (case addReplyMatcher st of
        Some (p # q) \<Rightarrow>
          if loopRunning st \<and> loopSends st = [] \<and> lastClock st \<le> rdMono clock
          then Some (loop_add clock p (st\<lparr>addReplyMatcher := Some q, lastClock := rdMono clock\<rparr>))
          else None
      | _ \<Rightarrow> None)"
| "step Flush st =
     (case loopSends st of
        x # rest \<Rightarrow>
          if loopRunning st \<and> length (listUpdate st) < listUpdateCap
          then Some (st\<lparr>listUpdate := listUpdate st @ [x], loopSends := rest\<rparr>)
          else None
      | [] \<Rightarrow> None)"
| "step (GotReply r) st =
     (if loopRunning st \<and> loopSends st = [] then Some (snd (loop_gotreply r st)) else None)"
| "step Cancel st = Some (st\<lparr>closeCtx := True\<rparr>)"
| "step Close st =
     (if loopRunning st \<and> loopSends st = [] \<and> closeCtx st then loop_close st else None)"
| "step (Timeout tnow clock) st =
     (case timer st of
        Some due \<Rightarrow>
          if timerRunning st \<and> due \<le> rdMono tnow \<and> rdMono tnow \<le> rdMono clock
             \<and> lastClock st \<le> rdMono clock
          then Some (timer_timeout tnow clock (st\<lparr>timer := None, lastClock := rdMono clock\<rparr>))
          else None
      | None \<Rightarrow> None)"
| "step (ListUpdate clock) st =
     (if timerRunning st \<and> lastClock st \<le> rdMono clock then
        (case listUpdate st of
           [] \<Rightarrow> None
         | None # rest \<Rightarrow> Some (st\<lparr>listUpdate := rest, timerRunning := False, timer := None\<rparr>)
         | Some el # rest \<Rightarrow>
             Some (resetTimeout clock (st\<lparr>listUpdate := rest, lastClock := rdMono clock\<rparr>)))
      else None)"
| "step TimerDone st =
     (if timerRunning st \<and> closeCtx st then Some (st\<lparr>timerRunning := False, timer := None\<rparr>)
      else None)"

fun run :: "'s event list \<Rightarrow> 's dispatcher \<Rightarrow> 's dispatcher option" where
  "run [] st = Some st"
| "run (ev # evs) st = (case step ev st of None \<Rightarrow> None | Some st1 \<Rightarrow> run evs st1)"

subsection \<open>findnode\<close>

definition nodeFromRPC :: "env \<Rightarrow> UDPAddr \<Rightarrow> rpcNode \<Rightarrow> error + tnode" where
  "nodeFromRPC e sender rn =
     (if rnUDP rn \<le> 1024 then Inl errLowPort
      else (case CheckRelayIP e (addrIP sender) (rnIP rn) of
        Some err \<Rightarrow> Inl err
      | None \<Rightarrow>
          if (case netrestrict e of None \<Rightarrow> False | Some contains \<Rightarrow> \<not> contains (rnIP rn))
          then Inl (errOther ''not contained in netrestrict whitelist'')
          else (case DecodePubkey e (rnID rn) of
            Some err \<Rightarrow> Inl err
          | None \<Rightarrow>
              (let n = \<lparr> nID = pubkeyID e (rnID rn), nIP = rnIP rn, nUDP = uint (rnUDP rn),
                         nTCP = uint (rnTCP rn), nKey = Some (rnID rn), nSeq = 0 \<rparr>
               in (case ValidateComplete e n of Some err \<Rightarrow> Inl err | None \<Rightarrow> Inr n)))))"

text \<open>
  The callback that \<^verbatim>\<open>findnode\<close> registers. Its captured variables are
  \<^verbatim>\<open>nodes\<close> and \<^verbatim>\<open>nreceived\<close>. The dispatcher calls it on packets of kind
  \<^verbatim>\<open>NeighborsPacket\<close> only; on another packet the type assertion of the source panics,
  which the last case stands for.
\<close>

fun collect :: "env \<Rightarrow> UDPAddr \<Rightarrow> rpcNode list \<Rightarrow> tnode list \<times> nat \<Rightarrow> tnode list \<times> nat" where
  "collect e toaddr [] acc = acc"
| "collect e toaddr (rn # rns) (nodes, nreceived) =
     (case nodeFromRPC e toaddr rn of
        Inl err \<Rightarrow> collect e toaddr rns (nodes, Suc nreceived)
      | Inr n \<Rightarrow> collect e toaddr rns (nodes @ [n], Suc nreceived))"

definition findnode_callback ::
  "env \<Rightarrow> UDPAddr \<Rightarrow> tnode list \<times> nat \<Rightarrow> packet \<Rightarrow> (bool \<times> bool) \<times> (tnode list \<times> nat)" where
  "findnode_callback e toaddr vars r =
     (case r of
        Neighbors rns exp \<Rightarrow>
          (let (nodes, nreceived) = collect e toaddr rns vars
           in ((True, nreceived \<ge> bucketSize), (nodes, nreceived)))
      | _ \<Rightarrow> ((False, False), vars))"

text \<open>The call of \<^verbatim>\<open>pending\<close> in \<^verbatim>\<open>findnode\<close>, as an event of the dispatcher.\<close>

definition findnode_ev :: "bool \<Rightarrow> env \<Rightarrow> enodeID \<Rightarrow> UDPAddr \<Rightarrow> (tnode list \<times> nat) event" where
  "findnode_ev takeDone e toid toaddr =
     Pending takeDone toid (addrIP toaddr) (addrPort toaddr) NeighborsPacket
       (findnode_callback e toaddr) ([], 0)"

text \<open>
  The rest of \<^verbatim>\<open>findnode\<close>, after the matcher \<open>rm\<close> is registered: \<open>sendErr\<close> is the
  error of \<^verbatim>\<open>t.send\<close>, \<open>st\<close> the dispatcher state when the function reads the matcher.
  \<open>None\<close>: the function is still waiting on \<^verbatim>\<open>rm.errc\<close>.
\<close>

definition findnode_result ::
  "error option \<Rightarrow> nat \<Rightarrow> (tnode list \<times> nat) dispatcher \<Rightarrow> (tnode list \<times> error option) option" where
  "findnode_result sendErr rm st =
     (let m = heap st rm;
          nodes = fst (rmVars m);
          err = (if sendErr = Some errTimeout \<and> rmReply m \<noteq> None then None else sendErr)
      in if err \<noteq> None then Some (nodes, err)
         else case rmErrc m of
                [] \<Rightarrow> None
              | v # _ \<Rightarrow> Some (nodes, if v = Some errTimeout \<and> rmReply m \<noteq> None then None else v))"

subsection \<open>RequestENR and Resolve\<close>







subsection \<open>Notions used in the statements\<close>

text \<open>Whether \<^verbatim>\<open>handleFindnode\<close> may relay table node \<open>n\<close> to the sender.\<close>

definition relay_ok :: "env \<Rightarrow> UDPAddr \<Rightarrow> tnode \<Rightarrow> bool" where
  "relay_ok e from n \<longleftrightarrow> CheckRelayIP e (addrIP from) (nIP n) = None"

text \<open>The closest table nodes for a Findnode target that pass the relay check.\<close>

definition accepted :: "env \<Rightarrow> UDPAddr \<Rightarrow> Pubkey \<Rightarrow> tnode list" where
  "accepted e from tgt = filter (relay_ok e from) (findnodeByID e (pubkeyID e tgt) bucketSize True)"

text \<open>The datagrams that \<^verbatim>\<open>t.send\<close> writes for a list of packets: one for each packet
  that \<^verbatim>\<open>v4wire.Encode\<close> accepts.\<close>

definition datagrams :: "env \<Rightarrow> UDPAddr \<Rightarrow> packet list \<Rightarrow> (UDPAddr \<times> bytes) list" where
  "datagrams e to ps =
     concat (map (\<lambda>p. case Encode e p of Inl err \<Rightarrow> [] | Inr (pkt, hash) \<Rightarrow> [(to, pkt)]) ps)"

text \<open>A datagram to \<open>to\<close> that is the encoding of a Neighbors packet of at most
  \<^verbatim>\<open>MaxNeighbors\<close> nodes.\<close>

definition neighbors_datagram :: "env \<Rightarrow> UDPAddr \<Rightarrow> UDPAddr \<times> bytes \<Rightarrow> bool" where
  "neighbors_datagram e to d \<longleftrightarrow>
     fst d = to \<and>
     (\<exists>nds ex hash. length nds \<le> MaxNeighbors \<and> Encode e (Neighbors nds ex) = Inr (snd d, hash))"



text \<open>The fields of matcher \<open>p\<close> that the dispatcher compares with a reply.\<close>

definition matches :: "'s replyMatcher \<Rightarrow> reply \<Rightarrow> bool" where
  "matches p r \<longleftrightarrow> rmPtype p = Kind (rData r) \<and> ipEqual (rmIP p) (rIP r) \<and> rmPort p = rPort r"


text \<open>
  The matchers waiting in the channel \<^verbatim>\<open>addReplyMatcher\<close>; the values a result channel
  can receive; and the invariant of the dispatcher while its loop runs, stated on the
  part of the state it concerns (next pointer, channel, list, values sent per matcher):
  the matchers in the channel and in the list are distinct, allocated and have received
  nothing; every other allocated matcher has received exactly one value. \<open>core_remove\<close>
  is the effect of sending \<open>v\<close> to matcher \<open>el\<close> and removing it from the list.
\<close>

definition queue :: "'s dispatcher \<Rightarrow> nat list" where
  "queue st = (case addReplyMatcher st of None \<Rightarrow> [] | Some q \<Rightarrow> q)"

definition results :: "error option set" where
  "results = {None, Some errTimeout, Some errClockWarp, Some errClosed}"

definition core :: "'s dispatcher \<Rightarrow> nat \<times> nat list option \<times> nat list \<times> (nat \<Rightarrow> error option list)" where
  "core st = (nalloc st, addReplyMatcher st, plist st, \<lambda>p. rmErrc (heap st p))"

fun core_remove ::
  "error option \<Rightarrow> nat \<Rightarrow> nat \<times> nat list option \<times> nat list \<times> (nat \<Rightarrow> error option list)
     \<Rightarrow> nat \<times> nat list option \<times> nat list \<times> (nat \<Rightarrow> error option list)" where
  "core_remove v el (n, a, pl, ec) = (n, a, remove1 el pl, ec(el := ec el @ [v]))"

fun wfc :: "nat \<times> nat list option \<times> nat list \<times> (nat \<Rightarrow> error option list) \<Rightarrow> bool" where
  "wfc (n, a, pl, ec) \<longleftrightarrow>
     distinct ((case a of None \<Rightarrow> [] | Some q \<Rightarrow> q) @ pl)
     \<and> (\<forall>p \<in> set ((case a of None \<Rightarrow> [] | Some q \<Rightarrow> q) @ pl). p < n \<and> ec p = [])
     \<and> (\<forall>p < n. p \<notin> set ((case a of None \<Rightarrow> [] | Some q \<Rightarrow> q) @ pl)
            \<longrightarrow> (\<exists>v \<in> results. ec p = [v]))"

definition wf_disp :: "'s dispatcher \<Rightarrow> bool" where
  "wf_disp st \<longleftrightarrow> wfc (core st)"

text \<open>
  Two states that differ at most in the bookkeeping of the timer goroutine
  (\<^verbatim>\<open>nextTimeout\<close>, the timer, \<^verbatim>\<open>contTimeouts\<close>, \<^verbatim>\<open>ntpWarnTime\<close>, the number
  of drift checks).
\<close>

definition same_matchers :: "'s dispatcher \<Rightarrow> 's dispatcher \<Rightarrow> bool" where
  "same_matchers s s' \<longleftrightarrow>
     heap s' = heap s \<and> nalloc s' = nalloc s \<and> addReplyMatcher s' = addReplyMatcher s
     \<and> closeCtx s' = closeCtx s \<and> plist s' = plist s \<and> listUpdate s' = listUpdate s
     \<and> loopSends s' = loopSends s \<and> loopRunning s' = loopRunning s
     \<and> timerRunning s' = timerRunning s \<and> replyTimeout s' = replyTimeout s
     \<and> lastClock s' = lastClock s"

text \<open>
  The matchers that wait are distinct and allocated; this holds in every state, also
  after the loop has returned.
\<close>

definition waiting_ok :: "'s dispatcher \<Rightarrow> bool" where
  "waiting_ok st \<longleftrightarrow>
     distinct (queue st @ plist st) \<and> (\<forall>p \<in> set (queue st @ plist st). p < nalloc st)"







text \<open>
  The timer goroutine has returned and \<^verbatim>\<open>listUpdate\<close> is full: nothing takes an
  element from the channel any more.
\<close>

definition listUpdate_stuck :: "'s dispatcher \<Rightarrow> bool" where
  "listUpdate_stuck st \<longleftrightarrow> \<not> timerRunning st \<and> listUpdateCap \<le> length (listUpdate st)"

subsection \<open>Concrete inputs\<close>

text \<open>
  A sender, a table node, an empty transport state, and surroundings with a toy codec:
  a Neighbors packet encodes to 98 bytes and 80 more for each node, the datagram \<open>[3]\<close> decodes to a
  Findnode and \<open>[5]\<close> to an ENRRequest, both expiring at second 2000000. The table holds
  \<open>tab\<close> and the clock reads \<open>clock\<close>.
\<close>

definition addr0 :: UDPAddr where
  "addr0 = \<lparr> addrIP = [10, 0, 0, 1], addrPort = 30303 \<rparr>"

definition node0 :: tnode where
  "node0 = \<lparr> nID = 1, nIP = [10, 0, 0, 2], nUDP = 30303, nTCP = 30303, nKey = None, nSeq = 0 \<rparr>"

definition st0 :: udp_state where
  "st0 = \<lparr> errors = (\<lambda>k. 0), lastPongReceived = (\<lambda>k. 0), outbox = [] \<rparr>"

definition test_env :: "tnode list \<Rightarrow> int \<Rightarrow> env" where
  "test_env tab clock =
     \<lparr> Encode = (\<lambda>p. Inr (case p of Neighbors nds ex \<Rightarrow> replicate (98 + 80 * length nds) 4 | _ \<Rightarrow> [], [])),
       Decode = (\<lambda>buf. if buf = [3] then Inr (Findnode [] 2000000, [], [7])
                        else if buf = [5] then Inr (ENRRequest 2000000, [], [7])
                        else Inl (errOther ''bad packet'')),
       Expired = (\<lambda>ts. uint ts * second < clock),
       CheckRelayIP = (\<lambda>sender ip. None),
       findnodeByID = (\<lambda>target n live. take n tab),
       pubkeyID = (\<lambda>k. 0),
       WriteErr = (\<lambda>pkt to. None),
       netrestrict = None,
       DecodePubkey = (\<lambda>k. None),
       ValidateComplete = (\<lambda>n. None),
       now = clock,
       localRecord = [],
       otherVerify = (\<lambda>p sender ident k st. (st, None)),
       pingHandle = (\<lambda>p sender ident mac st. st) \<rparr>"





text \<open>
  A node entry that \<^verbatim>\<open>nodeFromRPC\<close> accepts and the node it becomes; a dispatcher in
  its initial state, with the default reply timeout; a Neighbors reply of \<open>k\<close> entries
  from \<open>addr0\<close>; the call of \<^verbatim>\<open>pending\<close> by a \<^verbatim>\<open>findnode\<close> to \<open>addr0\<close>; and the
  reading of the clocks \<open>t\<close> after the start, on a wall clock that runs with the
  monotonic clock.
\<close>

definition rn9 :: rpcNode where
  "rn9 = \<lparr> rnID = [], rnIP = [10, 0, 0, 9], rnUDP = 30303, rnTCP = 30303 \<rparr>"

definition node9 :: tnode where
  "node9 = \<lparr> nID = 0, nIP = [10, 0, 0, 9], nUDP = 30303, nTCP = 30303, nKey = Some [], nSeq = 0 \<rparr>"

definition blank :: "'s \<Rightarrow> 's replyMatcher" where
  "blank vars = \<lparr> rmFrom = 0, rmIP = [], rmPort = 0, rmPtype = 0, rmDeadline = zeroTime,
                  rmCallback = (\<lambda>s p. ((False, False), s)), rmVars = vars, rmErrc = [],
                  rmReply = None \<rparr>"

definition disp0 :: "(tnode list \<times> nat) dispatcher" where
  "disp0 = init_dispatcher (\<lambda>p. blank ([], 0)) respTimeout"

definition neighbors_reply :: "nat \<Rightarrow> reply" where
  "neighbors_reply k = \<lparr> rFrom = 0, rIP = addrIP addr0, rPort = addrPort addr0,
                          rData = Neighbors (replicate k rn9) 2000000 \<rparr>"

definition findnode0 :: "(tnode list \<times> nat) event" where
  "findnode0 = findnode_ev False (test_env [] 0) 0 addr0"

definition at :: "int \<Rightarrow> reading" where
  "at t = \<lparr> rdWall = t, rdMono = t \<rparr>"

text \<open>
  Runs of the dispatcher from its initial state. In each, a matcher goes from the channel
  to the list (\<open>Add\<close>, \<open>Flush\<close>) and the timer goroutine sets its timer
  (\<open>ListUpdate\<close>).
\<close>

definition armed_run :: "(tnode list \<times> nat) event list" where
  "armed_run = [findnode0, Add (at 0), Flush, ListUpdate (at 0)]"

definition partial_reply_run :: "(tnode list \<times> nat) event list" where
  "partial_reply_run =
     armed_run @ [GotReply (neighbors_reply 3), Timeout (at respTimeout) (at respTimeout)]"

definition no_reply_run :: "(tnode list \<times> nat) event list" where
  "no_reply_run = armed_run @ [Timeout (at respTimeout) (at respTimeout)]"


definition close_run :: "(tnode list \<times> nat) event list" where
  "close_run = [findnode0, findnode0, Add (at 0), Flush, Cancel]"

definition two_findnode_run :: "(tnode list \<times> nat) event list" where
  "two_findnode_run =
     [findnode0, findnode0, Add (at 0), Flush, Add (at 0), Flush, GotReply (neighbors_reply 12)]"

definition shutdown_run :: "(tnode list \<times> nat) event list" where
  "shutdown_run = [findnode0, Add (at 0), Flush, ListUpdate (at 0), Cancel, Close,
                   Timeout (at respTimeout) (at respTimeout)]"

text \<open>
  Eleven requests are registered and added to the list while the timer goroutine handles
  one element of \<^verbatim>\<open>listUpdate\<close> only, so that the channel holds ten elements; then
  the context is cancelled and the timer goroutine takes \<^verbatim>\<open>closeCtx.Done()\<close> and
  returns.
\<close>

definition full_channel_run :: "(tnode list \<times> nat) event list" where
  "full_channel_run =
     concat (replicate 10 [findnode0, Add (at 0), Flush])
     @ [ListUpdate (at 0), findnode0, Add (at 0), Flush, Cancel, TimerDone]"



text \<open>
  Two \<^verbatim>\<open>findnode\<close> calls to the same node. The first is registered at instant 0 and
  receives a Neighbors packet of 12 entries; the second is registered 100 ms later. Then
  a Neighbors packet of 4 entries arrives (\<open>late_reply_start\<close> is the run up to there,
  \<open>late_reply_rest\<close> the run after it): the timer is set for the second matcher, and
  fires at its deadline.
\<close>

definition late_reply_start :: "(tnode list \<times> nat) event list" where
  "late_reply_start =
     [findnode0, Add (at 0), Flush, ListUpdate (at 0), GotReply (neighbors_reply 12),
      findnode0, Add (at (100 * millisecond)), Flush, ListUpdate (at (100 * millisecond))]"

definition late_reply_rest :: "(tnode list \<times> nat) event list" where
  "late_reply_rest =
     [Flush, ListUpdate (at (200 * millisecond)),
      Timeout (at (850 * millisecond)) (at (850 * millisecond))]"

section \<open>Properties\<close>

subsection \<open>Bond gating of Findnode and ENRRequest\<close>

text \<open>
  C1 (as amended). A Findnode or ENRRequest packet from a sender without a bond is
  rejected by its verifier: with \<^verbatim>\<open>errExpired\<close> when the packet is expired (that check
  comes first), with \<^verbatim>\<open>errUnknownNode\<close> otherwise. \<^verbatim>\<open>handlePacket\<close> returns what the
  verifier returned, so the handler has not run, only the error counter has changed, and
  nothing was written to the socket.
\<close>

theorem unbonded_request_rejected:
  assumes "Decode e buf = Inr (p, fromKey, hash)"
    and "p = Findnode tgt x \<or> p = ENRRequest x"
    and "\<not> checkBond e st (pubkeyID e fromKey) (addrIP from)"
  shows "preverify e p from (pubkeyID e fromKey) fromKey st =
           (if Expired e x then (count_error errExpiredStr st, Some errExpired)
            else (count_error errUnknownNodeStr st, Some errUnknownNode))
       \<and> handlePacket e from buf st = preverify e p from (pubkeyID e fromKey) fromKey st
       \<and> outbox (fst (handlePacket e from buf st)) = outbox st"
proof -
  have pv: "preverify e p from (pubkeyID e fromKey) fromKey st =
           (if Expired e x then (count_error errExpiredStr st, Some errExpired)
            else (count_error errUnknownNodeStr st, Some errUnknownNode))"
    using assms(2,3) by (auto simp: preverify_def verifyFindnode_def verifyENRRequest_def)
  have hp: "handlePacket e from buf st = preverify e p from (pubkeyID e fromKey) fromKey st"
    using assms(1) pv by (simp add: handlePacket_def Let_def)
  have "outbox (fst (handlePacket e from buf st)) = outbox st"
    unfolding hp pv by (simp add: count_error_def)
  with pv hp show ?thesis by simp
qed

text \<open>The theorem at an unexpired Findnode from a sender whose last pong is more than
  24 hours old.\<close>

theorem unbonded_request_rejected_witness:
  "Decode (test_env [] (1000000 * second)) [3] = Inr (Findnode [] 2000000, [], [7])
   \<and> \<not> checkBond (test_env [] (1000000 * second)) st0 (pubkeyID (test_env [] (1000000 * second)) []) (addrIP addr0)
   \<and> handlePacket (test_env [] (1000000 * second)) addr0 [3] st0
       = (count_error errUnknownNodeStr st0, Some errUnknownNode)
   \<and> outbox (fst (handlePacket (test_env [] (1000000 * second)) addr0 [3] st0)) = []"
proof -
  let ?e = "test_env [] (1000000 * second)"
  have d: "Decode ?e [3] = Inr (Findnode [] 2000000, [], [7])"
    by (simp add: test_env_def)
  have k: "Findnode [] 2000000 = Findnode [] 2000000 \<or> Findnode [] 2000000 = ENRRequest 2000000"
    by simp
  have b: "\<not> checkBond ?e st0 (pubkeyID ?e []) (addrIP addr0)"
    by (simp add: test_env_def checkBond_def st0_def second_def bondExpiration_def)
  have x: "\<not> Expired ?e 2000000"
    by (simp add: test_env_def second_def)
  note r = unbonded_request_rejected [OF d k b]
  have h: "handlePacket ?e addr0 [3] st0 = (count_error errUnknownNodeStr st0, Some errUnknownNode)"
    unfolding r [THEN conjunct2, THEN conjunct1] r [THEN conjunct1] using x by simp
  have o: "outbox (fst (handlePacket ?e addr0 [3] st0)) = []"
    unfolding r [THEN conjunct2, THEN conjunct2] by (simp add: st0_def)
  show ?thesis by (intro conjI d b h o)
qed

text \<open>
  C1 as stated fails: for an expired Findnode from an unbonded sender the verifier returns
  \<^verbatim>\<open>errExpired\<close>, not \<^verbatim>\<open>errUnknownNode\<close>.
\<close>

theorem unbonded_expired_findnode_counterexample:
  "\<not> checkBond (test_env [] (1000000 * second)) st0 0 (addrIP addr0)
   \<and> snd (preverify (test_env [] (1000000 * second)) (Findnode [] 0) addr0 0 [] st0) \<noteq> Some errUnknownNode"
  by (simp add: preverify_def verifyFindnode_def test_env_def checkBond_def st0_def second_def
      bondExpiration_def)

subsection \<open>What handleFindnode sends\<close>

lemma send_outbox:
  "outbox (fst (send e to req st)) = outbox st @ datagrams e to [req]"
  by (simp add: send_def write_udp_def datagrams_def split: sum.splits prod.splits)

lemma fold_send_outbox:
  "outbox (fold (\<lambda>p s. fst (send e to p s)) ps st) = outbox st @ datagrams e to ps"
proof (induction ps arbitrary: st)
  case Nil
  show ?case by (simp add: datagrams_def)
next
  case (Cons p ps)
  have "datagrams e to (p # ps) = datagrams e to [p] @ datagrams e to ps"
    by (simp add: datagrams_def)
  then show ?case using Cons by (simp add: send_outbox)
qed

lemma length_datagrams: "length (datagrams e to ps) \<le> length ps"
  by (induction ps) (auto simp: datagrams_def split: sum.splits)

lemma datagrams_chunks:
  "list_all (\<lambda>p. \<exists>nds. p = Neighbors nds ex \<and> length nds \<le> MaxNeighbors) ps \<Longrightarrow>
   list_all (neighbors_datagram e to) (datagrams e to ps)"
  by (induction ps) (auto simp: datagrams_def neighbors_datagram_def split: sum.splits)

lemma neighbors_loop_sends:
  "length pn < MaxNeighbors \<Longrightarrow>
   neighbors_loop e from exp ns (pn, sent, st) = (pn', sent', st') \<Longrightarrow>
   \<exists>pkts. st' = fold (\<lambda>p s. fst (send e from p s)) pkts st
      \<and> list_all (\<lambda>p. \<exists>nds. p = Neighbors nds exp \<and> length nds = MaxNeighbors) pkts
      \<and> length pkts * MaxNeighbors + length pn' = length pn + length (filter (relay_ok e from) ns)
      \<and> length pn' < MaxNeighbors
      \<and> (sent' \<longleftrightarrow> sent \<or> pkts \<noteq> [])"
proof (induction ns arbitrary: pn sent st)
  case Nil
  then show ?case by (intro exI [of _ "[]"]) simp
next
  case (Cons n ns)
  define pn1 where "pn1 = (if CheckRelayIP e (addrIP from) (nIP n) = None then pn @ [nodeToRPC n] else pn)"
  have len1: "length pn1 + length (filter (relay_ok e from) ns)
      = length pn + length (filter (relay_ok e from) (n # ns))"
    by (simp add: pn1_def relay_ok_def)
  show ?case
  proof (cases "length pn1 = MaxNeighbors")
    case True
    have run: "neighbors_loop e from exp ns ([], True, fst (send e from (Neighbors pn1 exp) st)) = (pn', sent', st')"
      using Cons.prems(2) True by (simp add: pn1_def Let_def)
    have "length ([] :: rpcNode list) < MaxNeighbors" by (simp add: MaxNeighbors_def)
    from Cons.IH [OF this run] obtain pkts where
      p: "st' = fold (\<lambda>p s. fst (send e from p s)) pkts (fst (send e from (Neighbors pn1 exp) st))"
         "list_all (\<lambda>p. \<exists>nds. p = Neighbors nds exp \<and> length nds = MaxNeighbors) pkts"
         "length pkts * MaxNeighbors + length pn' = length ([] :: rpcNode list) + length (filter (relay_ok e from) ns)"
         "length pn' < MaxNeighbors"
         "sent' \<longleftrightarrow> True \<or> pkts \<noteq> []"
      by blast
    have "length (Neighbors pn1 exp # pkts) * MaxNeighbors + length pn'
        = length pn + length (filter (relay_ok e from) (n # ns))"
      using p(3) True len1 by simp
    then show ?thesis
      using p True by (intro exI [of _ "Neighbors pn1 exp # pkts"]) simp
  next
    case False
    have "length pn1 \<le> Suc (length pn)" by (simp add: pn1_def)
    with False Cons.prems(1) have lt: "length pn1 < MaxNeighbors" by linarith
    have run: "neighbors_loop e from exp ns (pn1, sent, st) = (pn', sent', st')"
      using Cons.prems(2) False by (simp add: pn1_def Let_def)
    from Cons.IH [OF lt run] obtain pkts where
      p: "st' = fold (\<lambda>p s. fst (send e from p s)) pkts st"
         "list_all (\<lambda>p. \<exists>nds. p = Neighbors nds exp \<and> length nds = MaxNeighbors) pkts"
         "length pkts * MaxNeighbors + length pn' = length pn1 + length (filter (relay_ok e from) ns)"
         "length pn' < MaxNeighbors"
         "sent' \<longleftrightarrow> sent \<or> pkts \<noteq> []"
      by blast
    have "length pkts * MaxNeighbors + length pn'
        = length pn + length (filter (relay_ok e from) (n # ns))"
      using p(3) len1 by simp
    then show ?thesis
      using p by (intro exI [of _ pkts]) simp
  qed
qed

text \<open>
  The packets \<^verbatim>\<open>handleFindnode\<close> passes to \<^verbatim>\<open>t.send\<close>: Neighbors packets of at most
  \<^verbatim>\<open>MaxNeighbors\<close> nodes each, one if no table node is accepted, and otherwise as many as
  it takes to carry the accepted nodes.
\<close>

lemma handleFindnode_sends:
  shows "\<exists>pkts. handleFindnode e (Findnode tgt x) from fromID st
                  = fold (\<lambda>p s. fst (send e from p s)) pkts st
      \<and> list_all (\<lambda>p. \<exists>nds. p = Neighbors nds (expiry_stamp e) \<and> length nds \<le> MaxNeighbors) pkts
      \<and> length pkts = (if accepted e from tgt = [] then 1
                        else (length (accepted e from tgt) + (MaxNeighbors - 1)) div MaxNeighbors)
      \<and> (accepted e from tgt = [] \<longrightarrow> pkts = [Neighbors [] (expiry_stamp e)])"
proof -
  define closest where "closest = findnodeByID e (pubkeyID e tgt) bucketSize True"
  define a where "a = length (accepted e from tgt)"
  have a0: "accepted e from tgt = [] \<longleftrightarrow> a = 0" by (simp add: a_def)
  obtain pn sent st1 where
    run: "neighbors_loop e from (expiry_stamp e) closest ([], False, st) = (pn, sent, st1)"
    by (metis prod_cases3)
  have "length ([] :: rpcNode list) < MaxNeighbors" by (simp add: MaxNeighbors_def)
  from neighbors_loop_sends [OF this run] obtain full where
    f: "st1 = fold (\<lambda>p s. fst (send e from p s)) full st"
       "list_all (\<lambda>p. \<exists>nds. p = Neighbors nds (expiry_stamp e) \<and> length nds = MaxNeighbors) full"
       "length full * MaxNeighbors + length pn = a"
       "length pn < MaxNeighbors"
       "sent \<longleftrightarrow> full \<noteq> []"
    unfolding a_def accepted_def closest_def by auto
  define last where "last = (if length pn > 0 \<or> \<not> sent then [Neighbors pn (expiry_stamp e)] else [])"
  have res: "handleFindnode e (Findnode tgt x) from fromID st
      = fold (\<lambda>p s. fst (send e from p s)) (full @ last) st"
    using run f(1) by (simp add: handleFindnode_def closest_def last_def Let_def)
  have chunks: "list_all (\<lambda>p. \<exists>nds. p = Neighbors nds (expiry_stamp e) \<and> length nds \<le> MaxNeighbors) (full @ last)"
    using f(2) f(4) by (auto simp: last_def list_all_iff)
  have len: "length (full @ last) = (if a = 0 then 1 else (a + (MaxNeighbors - 1)) div MaxNeighbors)"
  proof (cases "length pn = 0")
    case True
    show ?thesis
    proof (cases "full = []")
      case True
      with \<open>length pn = 0\<close> f(3) f(5) show ?thesis by (simp add: last_def)
    next
      case False
      then have "length full > 0" by simp
      with \<open>length pn = 0\<close> f(3) f(5) False show ?thesis
        by (auto simp: last_def MaxNeighbors_def)
    qed
  next
    case False
    then have l: "length last = 1" by (simp add: last_def)
    have "a > 0" using False f(3) by auto
    have "Suc 0 \<le> length pn" using False by (cases pn) simp_all
    moreover have "length pn < 12" "a = length full * 12 + length pn"
      using f(3) f(4) by (simp_all add: MaxNeighbors_def)
    ultimately have "12 * Suc (length full) \<le> a + 11 \<and> a + 11 < 12 * Suc (Suc (length full))"
      by simp
    then have "(a + 11) div 12 = length full + 1"
      using div_nat_eqI [of 12 "Suc (length full)" "a + 11"] by simp
    then have "(a + (MaxNeighbors - 1)) div MaxNeighbors = length full + 1"
      by (simp add: MaxNeighbors_def)
    with l \<open>a > 0\<close> show ?thesis by simp
  qed
  have empty: "a = 0 \<longrightarrow> full @ last = [Neighbors [] (expiry_stamp e)]"
    using f(3) f(5) by (auto simp: last_def MaxNeighbors_def)
  show ?thesis
    unfolding a0 a_def [symmetric]
    by (rule exI [of _ "full @ last"]) (intro conjI res chunks len empty)
qed

lemma sum_list_bounded:
  "list_all (\<lambda>d. f d \<le> (m::nat)) xs \<Longrightarrow> sum_list (map f xs) \<le> length xs * m"
  by (induction xs) auto

lemma datagrams_sizes:
  assumes "\<forall>nds ex pkt hash. length nds \<le> MaxNeighbors \<longrightarrow>
             Encode e (Neighbors nds ex) = Inr (pkt, hash) \<longrightarrow> length pkt \<le> maxPacketSize"
    and "list_all (neighbors_datagram e to) ds"
  shows "list_all (\<lambda>d. length (snd d) \<le> maxPacketSize) ds"
  using assms unfolding list_all_iff neighbors_datagram_def by blast

lemma test_env_codec_sizes:
  "\<forall>nds ex pkt hash. length nds \<le> MaxNeighbors \<longrightarrow>
     Encode (test_env tab clock) (Neighbors nds ex) = Inr (pkt, hash) \<longrightarrow> length pkt \<le> maxPacketSize"
  by (auto simp: test_env_def MaxNeighbors_def maxPacketSize_def)

text \<open>
  C2. For a Findnode that was verified, \<^verbatim>\<open>handleFindnode\<close> writes at most
  \<open>\<lceil>bucketSize / MaxNeighbors\<rceil> = 2\<close> datagrams to the socket, each the encoding of a
  Neighbors packet of at most 12 nodes, so at most 2 times 1280 bytes in all. Two facts
  about code outside the file are assumed: the table query returns at most the
  \<^verbatim>\<open>bucketSize\<close> entries it is asked for, and the codec keeps a Neighbors packet of at
  most \<^verbatim>\<open>MaxNeighbors\<close> nodes within \<^verbatim>\<open>maxPacketSize\<close> bytes.
\<close>

theorem handleFindnode_amplification_bound:
  assumes "length (findnodeByID e (pubkeyID e tgt) bucketSize True) \<le> bucketSize"
    and "\<forall>nds ex pkt hash. length nds \<le> MaxNeighbors \<longrightarrow>
           Encode e (Neighbors nds ex) = Inr (pkt, hash) \<longrightarrow> length pkt \<le> maxPacketSize"
  shows "\<exists>new. outbox (handleFindnode e (Findnode tgt x) from fromID st) = outbox st @ new
       \<and> length new \<le> (bucketSize + MaxNeighbors - 1) div MaxNeighbors
       \<and> (bucketSize + MaxNeighbors - 1) div MaxNeighbors = 2
       \<and> list_all (neighbors_datagram e from) new
       \<and> sum_list (map (\<lambda>d. length (snd d)) new) \<le> 2 * maxPacketSize"
proof -
  obtain pkts where
    p: "handleFindnode e (Findnode tgt x) from fromID st = fold (\<lambda>p s. fst (send e from p s)) pkts st"
       "list_all (\<lambda>p. \<exists>nds. p = Neighbors nds (expiry_stamp e) \<and> length nds \<le> MaxNeighbors) pkts"
       "length pkts = (if accepted e from tgt = [] then 1
                        else (length (accepted e from tgt) + (MaxNeighbors - 1)) div MaxNeighbors)"
    using handleFindnode_sends [of e tgt x "from" fromID st] by blast
  define new where "new = datagrams e from pkts"
  have out: "outbox (handleFindnode e (Findnode tgt x) from fromID st) = outbox st @ new"
    unfolding p(1) new_def by (rule fold_send_outbox)
  have "length (accepted e from tgt) \<le> bucketSize"
    using assms(1) unfolding accepted_def by (meson le_trans length_filter_le)
  then have "(length (accepted e from tgt) + (MaxNeighbors - 1)) div MaxNeighbors \<le> 2"
    by (simp add: bucketSize_def MaxNeighbors_def)
  then have "length pkts \<le> 2" using p(3) by (simp split: if_splits)
  moreover have "length new \<le> length pkts" unfolding new_def by (rule length_datagrams)
  ultimately have len: "length new \<le> 2" by simp
  have two: "(bucketSize + MaxNeighbors - 1) div MaxNeighbors = 2"
    by (simp add: bucketSize_def MaxNeighbors_def)
  have chunks: "list_all (neighbors_datagram e from) new"
    unfolding new_def using p(2) by (rule datagrams_chunks)
  have "sum_list (map (\<lambda>d. length (snd d)) new) \<le> length new * maxPacketSize"
    using datagrams_sizes [OF assms(2) chunks] by (rule sum_list_bounded)
  also have "\<dots> \<le> 2 * maxPacketSize" using len by simp
  finally have bytes: "sum_list (map (\<lambda>d. length (snd d)) new) \<le> 2 * maxPacketSize" .
  show ?thesis
    using out len two chunks bytes by (intro exI [of _ new]) simp
qed

text \<open>The theorem for a table of 25 nodes, as in scenario S3 of the specification: two
  datagrams, of 12 and of 4 nodes.\<close>

theorem handleFindnode_amplification_bound_witness:
  "length (findnodeByID (test_env (replicate 25 node0) 0) (pubkeyID (test_env (replicate 25 node0) 0) [])
             bucketSize True) \<le> bucketSize
   \<and> map (\<lambda>d. length (snd d))
        (outbox (handleFindnode (test_env (replicate 25 node0) 0) (Findnode [] 2000000) addr0 0 st0))
       = [1058, 418]
   \<and> (\<exists>new. outbox (handleFindnode (test_env (replicate 25 node0) 0) (Findnode [] 2000000) addr0 0 st0)
               = outbox st0 @ new
          \<and> length new \<le> (bucketSize + MaxNeighbors - 1) div MaxNeighbors
          \<and> (bucketSize + MaxNeighbors - 1) div MaxNeighbors = 2
          \<and> list_all (neighbors_datagram (test_env (replicate 25 node0) 0) addr0) new
          \<and> sum_list (map (\<lambda>d. length (snd d)) new) \<le> 2 * maxPacketSize)"
proof -
  let ?e = "test_env (replicate 25 node0) 0"
  have h: "length (findnodeByID ?e (pubkeyID ?e []) bucketSize True) \<le> bucketSize"
    by (simp add: test_env_def)
  have v: "map (\<lambda>d. length (snd d)) (outbox (handleFindnode ?e (Findnode [] 2000000) addr0 0 st0)) = [1058, 418]"
    by (simp add: handleFindnode_def test_env_def bucketSize_def MaxNeighbors_def send_def
        write_udp_def st0_def Let_def eval_nat_numeral)
  show ?thesis
    by (intro conjI h v handleFindnode_amplification_bound [OF h test_env_codec_sizes])
qed

text \<open>
  C10. A Findnode that passes \<^verbatim>\<open>preverify\<close> (not expired, sender bonded) is answered:
  provided the codec encodes Neighbors packets, \<^verbatim>\<open>handlePacket\<close> returns no error and
  writes at least one Neighbors datagram to the sender; when the table yields no entry or
  the relay check filters every entry out, it writes exactly one, the encoding of a
  Neighbors packet with an empty node list.
\<close>

theorem handleFindnode_always_replies:
  assumes "Decode e buf = Inr (Findnode tgt x, fromKey, hash)"
    and "\<not> Expired e x"
    and "checkBond e st (pubkeyID e fromKey) (addrIP from)"
    and "\<forall>nds ex. \<exists>pkt h. Encode e (Neighbors nds ex) = Inr (pkt, h)"
  shows "snd (handlePacket e from buf st) = None
       \<and> (\<exists>new. outbox (fst (handlePacket e from buf st)) = outbox st @ new \<and> new \<noteq> []
              \<and> list_all (neighbors_datagram e from) new
              \<and> (accepted e from tgt = [] \<longrightarrow>
                   (\<exists>pkt h. Encode e (Neighbors [] (expiry_stamp e)) = Inr (pkt, h) \<and> new = [(from, pkt)])))"
proof -
  let ?id = "pubkeyID e fromKey"
  have pv: "preverify e (Findnode tgt x) from ?id fromKey st = (st, None)"
    using assms(2,3) by (simp add: preverify_def verifyFindnode_def)
  have hp: "handlePacket e from buf st = (handleFindnode e (Findnode tgt x) from ?id st, None)"
    using assms(1) pv by (simp add: handlePacket_def handle_def Let_def)
  obtain pkts where
    p: "handleFindnode e (Findnode tgt x) from ?id st = fold (\<lambda>p s. fst (send e from p s)) pkts st"
       "list_all (\<lambda>p. \<exists>nds. p = Neighbors nds (expiry_stamp e) \<and> length nds \<le> MaxNeighbors) pkts"
       "length pkts = (if accepted e from tgt = [] then 1
                        else (length (accepted e from tgt) + (MaxNeighbors - 1)) div MaxNeighbors)"
       "accepted e from tgt = [] \<longrightarrow> pkts = [Neighbors [] (expiry_stamp e)]"
    using handleFindnode_sends [of e tgt x "from" ?id st] by blast
  define new where "new = datagrams e from pkts"
  have out: "outbox (fst (handlePacket e from buf st)) = outbox st @ new"
    unfolding hp new_def fst_conv p(1) by (rule fold_send_outbox)
  have "pkts \<noteq> []"
  proof (cases "accepted e from tgt = []")
    case True
    with p(3) show ?thesis by auto
  next
    case False
    then have "length (accepted e from tgt) \<ge> 1" by (cases "accepted e from tgt") simp_all
    then have "(length (accepted e from tgt) + (MaxNeighbors - 1)) div MaxNeighbors \<ge> 1"
      by (simp add: MaxNeighbors_def)
    with p(3) False show ?thesis by auto
  qed
  then obtain q qs where q: "pkts = q # qs" by (cases pkts) auto
  with p(2) obtain nds where "q = Neighbors nds (expiry_stamp e)" by auto
  with assms(4) obtain pkt h where "Encode e q = Inr (pkt, h)" by blast
  then have ne: "new \<noteq> []" unfolding new_def q by (simp add: datagrams_def)
  have chunks: "list_all (neighbors_datagram e from) new"
    unfolding new_def using p(2) by (rule datagrams_chunks)
  have empty: "accepted e from tgt = [] \<longrightarrow>
      (\<exists>pkt h. Encode e (Neighbors [] (expiry_stamp e)) = Inr (pkt, h) \<and> new = [(from, pkt)])"
  proof
    assume "accepted e from tgt = []"
    with p(4) have pk: "pkts = [Neighbors [] (expiry_stamp e)]" by simp
    from assms(4) obtain pkt h where en: "Encode e (Neighbors [] (expiry_stamp e)) = Inr (pkt, h)"
      by blast
    then have "new = [(from, pkt)]" unfolding new_def pk by (simp add: datagrams_def)
    with en show "\<exists>pkt h. Encode e (Neighbors [] (expiry_stamp e)) = Inr (pkt, h) \<and> new = [(from, pkt)]"
      by blast
  qed
  have "snd (handlePacket e from buf st) = None" unfolding hp by simp
  moreover have "\<exists>new. outbox (fst (handlePacket e from buf st)) = outbox st @ new \<and> new \<noteq> []
              \<and> list_all (neighbors_datagram e from) new
              \<and> (accepted e from tgt = [] \<longrightarrow>
                   (\<exists>pkt h. Encode e (Neighbors [] (expiry_stamp e)) = Inr (pkt, h) \<and> new = [(from, pkt)]))"
    by (rule exI [of _ new]) (intro conjI out ne chunks empty)
  ultimately show ?thesis by (rule conjI)
qed

text \<open>The theorem for an empty table and a bonded sender.\<close>

theorem handleFindnode_always_replies_witness:
  "Decode (test_env [] (1000 * second)) [3] = Inr (Findnode [] 2000000, [], [7])
   \<and> \<not> Expired (test_env [] (1000 * second)) 2000000
   \<and> checkBond (test_env [] (1000 * second)) st0 (pubkeyID (test_env [] (1000 * second)) []) (addrIP addr0)
   \<and> snd (handlePacket (test_env [] (1000 * second)) addr0 [3] st0) = None
   \<and> outbox (fst (handlePacket (test_env [] (1000 * second)) addr0 [3] st0)) = [(addr0, replicate 98 4)]"
proof -
  let ?e = "test_env [] (1000 * second)"
  have d: "Decode ?e [3] = Inr (Findnode [] 2000000, [], [7])"
    by (simp add: test_env_def)
  have x: "\<not> Expired ?e 2000000"
    by (simp add: test_env_def second_def)
  have b: "checkBond ?e st0 (pubkeyID ?e []) (addrIP addr0)"
    by (simp add: test_env_def checkBond_def st0_def second_def bondExpiration_def)
  have c: "\<forall>nds ex. \<exists>pkt h. Encode ?e (Neighbors nds ex) = Inr (pkt, h)"
    by (simp add: test_env_def)
  have a: "accepted ?e addr0 [] = []"
    by (simp add: accepted_def test_env_def)
  have n: "Encode ?e (Neighbors [] (expiry_stamp ?e)) = Inr (replicate 98 4, [])"
    by (simp add: test_env_def)
  note r = handleFindnode_always_replies [OF d x b c]
  from r a n have o: "outbox (fst (handlePacket ?e addr0 [3] st0)) = [(addr0, replicate 98 4)]"
    by (auto simp: st0_def)
  from r have s: "snd (handlePacket ?e addr0 [3] st0) = None" by (rule conjunct1)
  show ?thesis by (intro conjI d x b s o)
qed

subsection \<open>Resolve\<close>











text \<open>Evaluation of the concrete runs.\<close>

lemma replicate_num: "replicate (numeral k) x = x # replicate (pred_numeral k) x"
  by (simp add: numeral_eq_Suc)

lemmas eval_defs = findnode0_def findnode_ev_def pending_def disp0_def init_dispatcher_def
  blank_def neighbors_reply_def loop_add_def resetTimeout_def loop_gotreply_def timer_timeout_def
  deliver_def findnode_callback_def nodeFromRPC_def test_env_def addr0_def rn9_def node9_def
  NeighborsPacket_def ipEqual_def respTimeout_def millisecond_def bucketSize_def
  ntpFailureThreshold_def Let_def at_def time_Now_def time_Add_def time_Sub_def time_Before_def
  time_Unix_def zeroTime_def addReplyMatcherCap_def listUpdateCap_def armed_run_def

lemmas run_defs = eval_defs loop_close_def handleReply_def matches_def queue_def

subsection \<open>What the loops over the list preserve\<close>

lemma deliver_fields [simp]:
  "nalloc (deliver v p st) = nalloc st"
  "addReplyMatcher (deliver v p st) = addReplyMatcher st"
  "closeCtx (deliver v p st) = closeCtx st"
  "plist (deliver v p st) = plist st"
  "nextTimeout (deliver v p st) = nextTimeout st"
  "timer (deliver v p st) = timer st"
  "contTimeouts (deliver v p st) = contTimeouts st"
  "listUpdate (deliver v p st) = listUpdate st"
  "loopSends (deliver v p st) = loopSends st"
  "loopRunning (deliver v p st) = loopRunning st"
  "timerRunning (deliver v p st) = timerRunning st"
  "replyTimeout (deliver v p st) = replyTimeout st"
  "lastClock (deliver v p st) = lastClock st"
  by (simp_all add: deliver_def)

lemma deliver_heap:
  "heap (deliver v p st) q
     = (if q = p then (heap st p)\<lparr>rmErrc := rmErrc (heap st p) @ [v]\<rparr> else heap st q)"
  by (simp add: deliver_def)

lemma deliver_matcher [simp]:
  "rmErrc (heap (deliver v p st) q) = rmErrc (heap st q) @ (if q = p then [v] else [])"
  "rmReply (heap (deliver v p st) q) = rmReply (heap st q)"
  "rmVars (heap (deliver v p st) q) = rmVars (heap st q)"
  "rmDeadline (heap (deliver v p st) q) = rmDeadline (heap st q)"
  "rmPtype (heap (deliver v p st) q) = rmPtype (heap st q)"
  "rmCallback (heap (deliver v p st) q) = rmCallback (heap st q)"
  by (simp_all add: deliver_def)

lemma queue_deliver [simp]: "queue (deliver v p st) = queue st"
  by (simp add: queue_def)

text \<open>
  A property \<open>P\<close> of the state holds after each of the three loops if it holds before,
  does not depend on the bookkeeping of the timer goroutine, and is kept when a matcher
  of the list is sent the value of that loop and removed (for \<^verbatim>\<open>resetTimeout\<close>: the head
  of the list, and only when its deadline is that far away), and, for the loop of
  \<^verbatim>\<open>gotreply\<close>, when the callback of a matcher of the list that matches runs.
\<close>

lemma timeout_loop_preserves:
  assumes "P st" and "set els \<subseteq> set (plist st)"
    and rem: "\<And>s el. P s \<Longrightarrow> el \<in> set (plist s) \<Longrightarrow>
                P ((deliver (Some errTimeout) el s)\<lparr>plist := remove1 el (plist s)\<rparr>)"
    and frame: "\<And>s s'. P s \<Longrightarrow> same_matchers s s' \<Longrightarrow> P s'"
  shows "P (timeout_loop tnow els st)"
  using assms(2)
proof (induction els)
  case Nil
  from assms(1) show ?case by simp
next
  case (Cons el els)
  show ?case
  proof (cases "time_Before (time_Now tnow) (rmDeadline (heap st el))")
    case True
    with Cons show ?thesis by simp
  next
    case False
    from Cons.prems have "el \<in> set (plist st)" by simp
    from rem [OF assms(1) this]
    have "P ((deliver (Some errTimeout) el st)\<lparr>plist := remove1 el (plist st)\<rparr>)" .
    then have "P ((deliver (Some errTimeout) el st)\<lparr>plist := remove1 el (plist st),
                                             contTimeouts := Suc (contTimeouts st)\<rparr>)"
      by (rule frame) (simp add: same_matchers_def)
    with False show ?thesis by simp
  qed
qed

lemma resetTimeout_preserves:
  assumes "P st"
    and evict: "\<And>s el rest. P s \<Longrightarrow> plist s = el # rest \<Longrightarrow>
                  2 * replyTimeout s \<le> time_Sub (rmDeadline (heap s el)) (time_Now clock) \<Longrightarrow>
                  P ((deliver (Some errClockWarp) el s)\<lparr>plist := remove1 el (plist s)\<rparr>)"
    and frame: "\<And>s s'. P s \<Longrightarrow> same_matchers s s' \<Longrightarrow> P s'"
  shows "P (resetTimeout clock st)"
proof (cases "plist st")
  case Nil
  with assms(1) show ?thesis by (simp add: resetTimeout_def)
next
  case (Cons el rest)
  show ?thesis
  proof (cases "nextTimeout st = Some el")
    case True
    with Cons assms(1) show ?thesis by (simp add: resetTimeout_def)
  next
    case False
    then have r: "resetTimeout clock st = reset_loop clock (el # rest) st"
      using Cons by (simp add: resetTimeout_def)
    let ?dist = "time_Sub (rmDeadline (heap st el)) (time_Now clock)"
    show ?thesis
    proof (cases "?dist < 2 * replyTimeout st")
      case True
      have "P (st\<lparr>nextTimeout := Some el, timer := Some (rdMono clock + max ?dist 0)\<rparr>)"
        by (rule frame [OF assms(1)]) (simp add: same_matchers_def)
      with True show ?thesis unfolding r by (simp add: Let_def)
    next
      case False
      then have far: "2 * replyTimeout st \<le> ?dist" by simp
      let ?e = "(deliver (Some errClockWarp) el st)\<lparr>plist := remove1 el (plist st)\<rparr>"
      have "P ?e" by (rule evict [OF assms(1) Cons far])
      then have "P (?e\<lparr>nextTimeout := None, timer := None\<rparr>)"
        by (rule frame) (simp add: same_matchers_def)
      moreover have "reset_loop clock (el # rest) st = ?e\<lparr>nextTimeout := None, timer := None\<rparr>"
        using False by (simp add: Let_def)
      ultimately show ?thesis unfolding r by simp
    qed
  qed
qed

lemma timer_timeout_preserves:
  assumes "P st"
    and rem: "\<And>s el. P s \<Longrightarrow> el \<in> set (plist s) \<Longrightarrow>
                P ((deliver (Some errTimeout) el s)\<lparr>plist := remove1 el (plist s)\<rparr>)"
    and evict: "\<And>s el rest. P s \<Longrightarrow> plist s = el # rest \<Longrightarrow>
                  2 * replyTimeout s \<le> time_Sub (rmDeadline (heap s el)) (time_Now clock) \<Longrightarrow>
                  P ((deliver (Some errClockWarp) el s)\<lparr>plist := remove1 el (plist s)\<rparr>)"
    and frame: "\<And>s s'. P s \<Longrightarrow> same_matchers s s' \<Longrightarrow> P s'"
  shows "P (timer_timeout tnow clock st)"
proof -
  let ?st0 = "st\<lparr>nextTimeout := None\<rparr>"
  have p0: "P ?st0" by (rule frame [OF assms(1)]) (simp add: same_matchers_def)
  define st1 where "st1 = timeout_loop tnow (plist st) ?st0"
  have p1: "P st1"
    unfolding st1_def by (rule timeout_loop_preserves [OF p0 _ rem frame]) simp_all
  define st2 where "st2 = (if contTimeouts st1 > ntpFailureThreshold
                 then (if time_Sub (time_Now clock) (ntpWarnTime st1) \<ge> ntpWarningCooldown
                       then st1\<lparr>ntpWarnTime := time_Now clock, driftChecks := Suc (driftChecks st1)\<rparr>
                       else st1)\<lparr>contTimeouts := 0\<rparr>
                 else st1)"
  have p2: "P st2"
    by (rule frame [OF p1]) (simp add: st2_def same_matchers_def)
  have "P (resetTimeout clock st2)" by (rule resetTimeout_preserves [OF p2 evict frame])
  moreover have "timer_timeout tnow clock st = resetTimeout clock st2"
    unfolding timer_timeout_def st2_def st1_def Let_def by (rule refl)
  ultimately show ?thesis by simp
qed

lemma reply_loop_preserves:
  assumes "P st" and "set els \<subseteq> set (plist st)"
    and cont: "\<And>s el ok vars. P s \<Longrightarrow> el \<in> set (plist s) \<Longrightarrow> matches (heap s el) r \<Longrightarrow>
                 rmCallback (heap s el) (rmVars (heap s el)) (rData r) = ((ok, False), vars) \<Longrightarrow>
                 P (s\<lparr>heap := (heap s)(el := (heap s el)\<lparr>rmVars := vars, rmReply := Some (rData r)\<rparr>)\<rparr>)"
    and fin: "\<And>s el ok vars. P s \<Longrightarrow> el \<in> set (plist s) \<Longrightarrow> matches (heap s el) r \<Longrightarrow>
                 rmCallback (heap s el) (rmVars (heap s el)) (rData r) = ((ok, True), vars) \<Longrightarrow>
                 P ((deliver None el
                      (s\<lparr>heap := (heap s)(el := (heap s el)\<lparr>rmVars := vars, rmReply := Some (rData r)\<rparr>)\<rparr>))
                    \<lparr>plist := remove1 el (plist s)\<rparr>)"
    and frame: "\<And>s s'. P s \<Longrightarrow> same_matchers s s' \<Longrightarrow> P s'"
  shows "P (fst (reply_loop r els (st, m, rs)))"
  using assms(1,2)
proof (induction els arbitrary: st m rs)
  case Nil
  then show ?case by simp
next
  case (Cons el els)
  from Cons.prems(2) have el: "el \<in> set (plist st)" and els: "set els \<subseteq> set (plist st)"
    by simp_all
  show ?case
  proof (cases "matches (heap st el) r")
    case False
    then have "fst (reply_loop r (el # els) (st, m, rs)) = fst (reply_loop r els (st, m, rs))"
      by (auto simp: matches_def Let_def)
    with Cons.IH [OF Cons.prems(1) els, of m rs] show ?thesis by simp
  next
    case True
    obtain ok requestDone vars where
      cb: "rmCallback (heap st el) (rmVars (heap st el)) (rData r) = ((ok, requestDone), vars)"
      by (metis prod.exhaust)
    let ?st1 = "st\<lparr>heap := (heap st)(el := (heap st el)\<lparr>rmVars := vars, rmReply := Some (rData r)\<rparr>)\<rparr>"
    show ?thesis
    proof (cases requestDone)
      case True
      from cb True have cbT:
        "rmCallback (heap st el) (rmVars (heap st el)) (rData r) = ((ok, True), vars)" by simp
      from fin [OF Cons.prems(1) el \<open>matches (heap st el) r\<close> cbT]
      have "P ((deliver None el ?st1)\<lparr>plist := remove1 el (plist st)\<rparr>)" .
      then have "P ((deliver None el ?st1)\<lparr>plist := remove1 el (plist st), contTimeouts := 0\<rparr>)"
        by (rule frame) (simp add: same_matchers_def)
      moreover have "fst (reply_loop r (el # els) (st, m, rs))
          = (deliver None el ?st1)\<lparr>plist := remove1 el (plist st), contTimeouts := 0\<rparr>"
        using \<open>matches (heap st el) r\<close> cb True by (simp add: matches_def Let_def)
      ultimately show ?thesis by simp
    next
      case False
      from cb False have cbF:
        "rmCallback (heap st el) (rmVars (heap st el)) (rData r) = ((ok, False), vars)" by simp
      from cont [OF Cons.prems(1) el True cbF] have "P ?st1" .
      then have p: "P (?st1\<lparr>contTimeouts := 0\<rparr>)"
        by (rule frame) (simp add: same_matchers_def)
      have e: "fst (reply_loop r (el # els) (st, m, rs))
          = fst (reply_loop r els (?st1\<lparr>contTimeouts := 0\<rparr>, m \<or> ok, rs))"
        using True cb False by (simp add: matches_def Let_def)
      have "set els \<subseteq> set (plist (?st1\<lparr>contTimeouts := 0\<rparr>))" using els by simp
      from Cons.IH [OF p this] show ?thesis unfolding e .
    qed
  qed
qed

lemma loop_gotreply_preserves:
  assumes "P st"
    and cont: "\<And>s el ok vars. P s \<Longrightarrow> el \<in> set (plist s) \<Longrightarrow> matches (heap s el) r \<Longrightarrow>
                 rmCallback (heap s el) (rmVars (heap s el)) (rData r) = ((ok, False), vars) \<Longrightarrow>
                 P (s\<lparr>heap := (heap s)(el := (heap s el)\<lparr>rmVars := vars, rmReply := Some (rData r)\<rparr>)\<rparr>)"
    and fin: "\<And>s el ok vars. P s \<Longrightarrow> el \<in> set (plist s) \<Longrightarrow> matches (heap s el) r \<Longrightarrow>
                 rmCallback (heap s el) (rmVars (heap s el)) (rData r) = ((ok, True), vars) \<Longrightarrow>
                 P ((deliver None el
                      (s\<lparr>heap := (heap s)(el := (heap s el)\<lparr>rmVars := vars, rmReply := Some (rData r)\<rparr>)\<rparr>))
                    \<lparr>plist := remove1 el (plist s)\<rparr>)"
    and frame: "\<And>s s'. P s \<Longrightarrow> same_matchers s s' \<Longrightarrow> P s'"
    and sends: "\<And>s x. P s \<Longrightarrow> P (s\<lparr>loopSends := x\<rparr>)"
  shows "P (snd (loop_gotreply r st))"
proof -
  let ?res = "reply_loop r (plist st) (st, False, [])"
  have "P (fst ?res)"
    by (rule reply_loop_preserves [OF assms(1) _ cont fin frame]) simp_all
  then have "P ((fst ?res)\<lparr>loopSends := map Some (snd (snd ?res))\<rparr>)" by (rule sends)
  moreover have "snd (loop_gotreply r st) = (fst ?res)\<lparr>loopSends := map Some (snd (snd ?res))\<rparr>"
    by (simp add: loop_gotreply_def split_beta del: reply_loop.simps)
  ultimately show ?thesis by simp
qed

text \<open>
  The same for a step and for a run of the dispatcher: a property \<open>P\<close> of the state
  holds after the run if it holds before and each case keeps it. \<open>T\<close> is what is known
  of the events of the run.
\<close>

lemma step_preserves:
  assumes "P st" and "step ev st = Some st'" and "T ev"
    and pend: "\<And>s takeDone ident ip port ptype cb vars p s'.
                 P s \<Longrightarrow> T (Pending takeDone ident ip port ptype cb vars) \<Longrightarrow>
                 pending takeDone ident ip port ptype cb vars s = Some (p, s') \<Longrightarrow> P s'"
    and add: "\<And>s clock p q. P s \<Longrightarrow> addReplyMatcher s = Some (p # q) \<Longrightarrow>
                 lastClock s \<le> rdMono clock \<Longrightarrow>
                 P (loop_add clock p (s\<lparr>addReplyMatcher := Some q, lastClock := rdMono clock\<rparr>))"
    and flush: "\<And>s x rest. P s \<Longrightarrow> loopSends s = x # rest \<Longrightarrow>
                 length (listUpdate s) < listUpdateCap \<Longrightarrow>
                 P (s\<lparr>listUpdate := listUpdate s @ [x], loopSends := rest\<rparr>)"
    and cont: "\<And>s r el ok vars. P s \<Longrightarrow> T (GotReply r) \<Longrightarrow> el \<in> set (plist s) \<Longrightarrow>
                 matches (heap s el) r \<Longrightarrow>
                 rmCallback (heap s el) (rmVars (heap s el)) (rData r) = ((ok, False), vars) \<Longrightarrow>
                 P (s\<lparr>heap := (heap s)(el := (heap s el)\<lparr>rmVars := vars, rmReply := Some (rData r)\<rparr>)\<rparr>)"
    and fin: "\<And>s r el ok vars. P s \<Longrightarrow> T (GotReply r) \<Longrightarrow> el \<in> set (plist s) \<Longrightarrow>
                 matches (heap s el) r \<Longrightarrow>
                 rmCallback (heap s el) (rmVars (heap s el)) (rData r) = ((ok, True), vars) \<Longrightarrow>
                 P ((deliver None el
                      (s\<lparr>heap := (heap s)(el := (heap s el)\<lparr>rmVars := vars, rmReply := Some (rData r)\<rparr>)\<rparr>))
                    \<lparr>plist := remove1 el (plist s)\<rparr>)"
    and sends: "\<And>s x. P s \<Longrightarrow> P (s\<lparr>loopSends := x\<rparr>)"
    and cancel: "\<And>s. P s \<Longrightarrow> P (s\<lparr>closeCtx := True\<rparr>)"
    and close: "\<And>s s'. P s \<Longrightarrow> loop_close s = Some s' \<Longrightarrow> P s'"
    and tick: "\<And>s c. P s \<Longrightarrow> timerRunning s \<Longrightarrow> lastClock s \<le> c \<Longrightarrow>
                 P (s\<lparr>timer := None, lastClock := c\<rparr>)"
    and took: "\<And>s x rest c. P s \<Longrightarrow> timerRunning s \<Longrightarrow> listUpdate s = x # rest \<Longrightarrow>
                 lastClock s \<le> c \<Longrightarrow> P (s\<lparr>listUpdate := rest, lastClock := c\<rparr>)"
    and ret: "\<And>s l. P s \<Longrightarrow> timerRunning s \<Longrightarrow> P (s\<lparr>listUpdate := l, timerRunning := False, timer := None\<rparr>)"
    and rem: "\<And>s el. P s \<Longrightarrow> timerRunning s \<Longrightarrow> el \<in> set (plist s) \<Longrightarrow>
                 P ((deliver (Some errTimeout) el s)\<lparr>plist := remove1 el (plist s)\<rparr>)"
    and evict: "\<And>s el rest clock. P s \<Longrightarrow> timerRunning s \<Longrightarrow> lastClock s = rdMono clock \<Longrightarrow>
                  plist s = el # rest \<Longrightarrow>
                  2 * replyTimeout s \<le> time_Sub (rmDeadline (heap s el)) (time_Now clock) \<Longrightarrow>
                  P ((deliver (Some errClockWarp) el s)\<lparr>plist := remove1 el (plist s)\<rparr>)"
    and frame: "\<And>s s'. P s \<Longrightarrow> same_matchers s s' \<Longrightarrow> P s'"
  shows "P st'"
proof (cases ev)
  case (Pending takeDone ident ip port ptype cb vars)
  with assms(2) obtain p where
    "pending takeDone ident ip port ptype cb vars st = Some (p, st')" by auto
  from pend [OF assms(1) assms(3) [unfolded Pending] this] show ?thesis .
next
  case (Add clock)
  with assms(2) obtain p q where "addReplyMatcher st = Some (p # q)"
    and "lastClock st \<le> rdMono clock"
    and "st' = loop_add clock p (st\<lparr>addReplyMatcher := Some q, lastClock := rdMono clock\<rparr>)"
    by (auto split: option.splits list.splits if_splits)
  with add [OF assms(1)] show ?thesis by simp
next
  case Flush
  with assms(2) obtain x rest where "loopSends st = x # rest"
    and "length (listUpdate st) < listUpdateCap"
    and "st' = st\<lparr>listUpdate := listUpdate st @ [x], loopSends := rest\<rparr>"
    by (auto split: list.splits if_splits)
  with flush [OF assms(1)] show ?thesis by simp
next
  case (GotReply r)
  with assms(2) have e: "st' = snd (loop_gotreply r st)" by (auto split: if_splits)
  from assms(3) GotReply have t: "T (GotReply r)" by simp
  show ?thesis unfolding e
    by (rule loop_gotreply_preserves [OF assms(1) cont [OF _ t] fin [OF _ t] frame sends])
next
  case Cancel
  with assms(2) have "st' = st\<lparr>closeCtx := True\<rparr>" by auto
  with cancel [OF assms(1)] show ?thesis by simp
next
  case Close
  with assms(2) have "loop_close st = Some st'" by (auto split: if_splits)
  from close [OF assms(1) this] show ?thesis .
next
  case (Timeout tnow clock)
  with assms(2) have tr: "timerRunning st" and le: "lastClock st \<le> rdMono clock"
    and e: "st' = timer_timeout tnow clock (st\<lparr>timer := None, lastClock := rdMono clock\<rparr>)"
    by (auto split: option.splits if_splits)
  let ?Q = "\<lambda>s. P s \<and> lastClock s = rdMono clock \<and> timerRunning s"
  have q0: "?Q (st\<lparr>timer := None, lastClock := rdMono clock\<rparr>)"
    using tick [OF assms(1) tr le] tr by simp
  have "?Q (timer_timeout tnow clock (st\<lparr>timer := None, lastClock := rdMono clock\<rparr>))"
  proof (rule timer_timeout_preserves [where P = ?Q, OF q0])
    fix s el assume "?Q s" and "el \<in> set (plist s)"
    with rem [of s el]
    show "?Q ((deliver (Some errTimeout) el s)\<lparr>plist := remove1 el (plist s)\<rparr>)" by simp
  next
    fix s el rest
    assume "?Q s" and "plist s = el # rest"
      and "2 * replyTimeout s \<le> time_Sub (rmDeadline (heap s el)) (time_Now clock)"
    with evict [of s clock el rest]
    show "?Q ((deliver (Some errClockWarp) el s)\<lparr>plist := remove1 el (plist s)\<rparr>)" by simp
  next
    fix s s' assume "?Q s" and "same_matchers s s'"
    with frame [of s s'] show "?Q s'" by (simp add: same_matchers_def)
  qed
  then show ?thesis unfolding e by simp
next
  case (ListUpdate clock)
  with assms(2) have tr: "timerRunning st" and le: "lastClock st \<le> rdMono clock"
    by (auto split: if_splits)
  from assms(2) ListUpdate obtain x rest where u: "listUpdate st = x # rest"
    by (cases "listUpdate st") (auto split: if_splits)
  show ?thesis
  proof (cases x)
    case None
    with assms(2) ListUpdate u tr le
    have "st' = st\<lparr>listUpdate := rest, timerRunning := False, timer := None\<rparr>" by simp
    with ret [OF assms(1) tr] show ?thesis by simp
  next
    case (Some el)
    with assms(2) ListUpdate u tr le
    have e: "st' = resetTimeout clock (st\<lparr>listUpdate := rest, lastClock := rdMono clock\<rparr>)"
      by simp
    let ?Q = "\<lambda>s. P s \<and> lastClock s = rdMono clock \<and> timerRunning s"
    have q0: "?Q (st\<lparr>listUpdate := rest, lastClock := rdMono clock\<rparr>)"
      using took [OF assms(1) tr u le] tr by simp
    have "?Q (resetTimeout clock (st\<lparr>listUpdate := rest, lastClock := rdMono clock\<rparr>))"
    proof (rule resetTimeout_preserves [where P = ?Q, OF q0])
      fix s el rest
      assume "?Q s" and "plist s = el # rest"
        and "2 * replyTimeout s \<le> time_Sub (rmDeadline (heap s el)) (time_Now clock)"
      with evict [of s clock el rest]
      show "?Q ((deliver (Some errClockWarp) el s)\<lparr>plist := remove1 el (plist s)\<rparr>)" by simp
    next
      fix s s' assume "?Q s" and "same_matchers s s'"
      with frame [of s s'] show "?Q s'" by (simp add: same_matchers_def)
    qed
    then show ?thesis unfolding e by simp
  qed
next
  case TimerDone
  with assms(2) have "timerRunning st" and "st' = st\<lparr>timerRunning := False, timer := None\<rparr>"
    by (auto split: if_splits)
  with ret [OF assms(1), of "listUpdate st"] show ?thesis by simp
qed

lemma run_preserves:
  assumes "P st" and "run evs st = Some st'" and "list_all T evs"
    and pend: "\<And>s takeDone ident ip port ptype cb vars p s'.
                 P s \<Longrightarrow> T (Pending takeDone ident ip port ptype cb vars) \<Longrightarrow>
                 pending takeDone ident ip port ptype cb vars s = Some (p, s') \<Longrightarrow> P s'"
    and add: "\<And>s clock p q. P s \<Longrightarrow> addReplyMatcher s = Some (p # q) \<Longrightarrow>
                 lastClock s \<le> rdMono clock \<Longrightarrow>
                 P (loop_add clock p (s\<lparr>addReplyMatcher := Some q, lastClock := rdMono clock\<rparr>))"
    and flush: "\<And>s x rest. P s \<Longrightarrow> loopSends s = x # rest \<Longrightarrow>
                 length (listUpdate s) < listUpdateCap \<Longrightarrow>
                 P (s\<lparr>listUpdate := listUpdate s @ [x], loopSends := rest\<rparr>)"
    and cont: "\<And>s r el ok vars. P s \<Longrightarrow> T (GotReply r) \<Longrightarrow> el \<in> set (plist s) \<Longrightarrow>
                 matches (heap s el) r \<Longrightarrow>
                 rmCallback (heap s el) (rmVars (heap s el)) (rData r) = ((ok, False), vars) \<Longrightarrow>
                 P (s\<lparr>heap := (heap s)(el := (heap s el)\<lparr>rmVars := vars, rmReply := Some (rData r)\<rparr>)\<rparr>)"
    and fin: "\<And>s r el ok vars. P s \<Longrightarrow> T (GotReply r) \<Longrightarrow> el \<in> set (plist s) \<Longrightarrow>
                 matches (heap s el) r \<Longrightarrow>
                 rmCallback (heap s el) (rmVars (heap s el)) (rData r) = ((ok, True), vars) \<Longrightarrow>
                 P ((deliver None el
                      (s\<lparr>heap := (heap s)(el := (heap s el)\<lparr>rmVars := vars, rmReply := Some (rData r)\<rparr>)\<rparr>))
                    \<lparr>plist := remove1 el (plist s)\<rparr>)"
    and sends: "\<And>s x. P s \<Longrightarrow> P (s\<lparr>loopSends := x\<rparr>)"
    and cancel: "\<And>s. P s \<Longrightarrow> P (s\<lparr>closeCtx := True\<rparr>)"
    and close: "\<And>s s'. P s \<Longrightarrow> loop_close s = Some s' \<Longrightarrow> P s'"
    and tick: "\<And>s c. P s \<Longrightarrow> timerRunning s \<Longrightarrow> lastClock s \<le> c \<Longrightarrow>
                 P (s\<lparr>timer := None, lastClock := c\<rparr>)"
    and took: "\<And>s x rest c. P s \<Longrightarrow> timerRunning s \<Longrightarrow> listUpdate s = x # rest \<Longrightarrow>
                 lastClock s \<le> c \<Longrightarrow> P (s\<lparr>listUpdate := rest, lastClock := c\<rparr>)"
    and ret: "\<And>s l. P s \<Longrightarrow> timerRunning s \<Longrightarrow> P (s\<lparr>listUpdate := l, timerRunning := False, timer := None\<rparr>)"
    and rem: "\<And>s el. P s \<Longrightarrow> timerRunning s \<Longrightarrow> el \<in> set (plist s) \<Longrightarrow>
                 P ((deliver (Some errTimeout) el s)\<lparr>plist := remove1 el (plist s)\<rparr>)"
    and evict: "\<And>s el rest clock. P s \<Longrightarrow> timerRunning s \<Longrightarrow> lastClock s = rdMono clock \<Longrightarrow>
                  plist s = el # rest \<Longrightarrow>
                  2 * replyTimeout s \<le> time_Sub (rmDeadline (heap s el)) (time_Now clock) \<Longrightarrow>
                  P ((deliver (Some errClockWarp) el s)\<lparr>plist := remove1 el (plist s)\<rparr>)"
    and frame: "\<And>s s'. P s \<Longrightarrow> same_matchers s s' \<Longrightarrow> P s'"
  shows "P st'"
  using assms(1,2,3)
proof (induction evs arbitrary: st)
  case Nil
  then show ?case by simp
next
  case (Cons ev evs)
  from Cons.prems(2) obtain st1 where s: "step ev st = Some st1" and r: "run evs st1 = Some st'"
    by (auto split: option.splits)
  from Cons.prems(3) have t: "T ev" and ts: "list_all T evs" by simp_all
  have "P st1"
    by (rule step_preserves [where P = P and T = T, OF Cons.prems(1) s t pend add flush cont fin
          sends cancel close tick took ret rem evict frame])
  from Cons.IH [OF this r ts] show ?case .
qed

subsection \<open>The waiting matchers are distinct and allocated\<close>

lemma fold_deliver_fields [simp]:
  "nalloc (fold (deliver v) ps st) = nalloc st"
  "addReplyMatcher (fold (deliver v) ps st) = addReplyMatcher st"
  "plist (fold (deliver v) ps st) = plist st"
  "listUpdate (fold (deliver v) ps st) = listUpdate st"
  "timerRunning (fold (deliver v) ps st) = timerRunning st"
  "replyTimeout (fold (deliver v) ps st) = replyTimeout st"
  "lastClock (fold (deliver v) ps st) = lastClock st"
  by (induction ps arbitrary: st) simp_all

lemma fold_deliver_matcher [simp]:
  "rmVars (heap (fold (deliver v) ps st) p) = rmVars (heap st p)"
  "rmDeadline (heap (fold (deliver v) ps st) p) = rmDeadline (heap st p)"
  "rmPtype (heap (fold (deliver v) ps st) p) = rmPtype (heap st p)"
  "rmCallback (heap (fold (deliver v) ps st) p) = rmCallback (heap st p)"
  by (induction ps arbitrary: st) simp_all

lemma fold_deliver_errc:
  "distinct ps \<Longrightarrow>
   rmErrc (heap (fold (deliver v) ps st) p) = rmErrc (heap st p) @ (if p \<in> set ps then [v] else [])"
  by (induction ps arbitrary: st) auto

lemma fold_deliver_errc_set:
  "set (rmErrc (heap (fold (deliver v) ps st) p)) \<subseteq> insert v (set (rmErrc (heap st p)))"
proof (induction ps arbitrary: st)
  case Nil
  show ?case by auto
next
  case (Cons a ps)
  from Cons [of "deliver v a st"] show ?case by auto
qed

lemma fold_deliver_errc_mono:
  "set (rmErrc (heap st p)) \<subseteq> set (rmErrc (heap (fold (deliver v) ps st) p))"
proof (induction ps arbitrary: st)
  case Nil
  show ?case by auto
next
  case (Cons a ps)
  from Cons [of "deliver v a st"] show ?case by auto
qed

lemma loop_close_fields:
  assumes "loop_close s = Some s'"
  shows "nalloc s' = nalloc s" and "plist s' = plist s" and "addReplyMatcher s' = None"
    and "\<not> loopRunning s'" and "replyTimeout s' = replyTimeout s" and "lastClock s' = lastClock s"
    and "timerRunning s' = timerRunning s" and "length (listUpdate s) < listUpdateCap"
    and "rmVars (heap s' p) = rmVars (heap s p)" and "rmDeadline (heap s' p) = rmDeadline (heap s p)"
    and "rmPtype (heap s' p) = rmPtype (heap s p)" and "rmCallback (heap s' p) = rmCallback (heap s p)"
    and "set (rmErrc (heap s' p)) \<subseteq> insert (Some errClosed) (set (rmErrc (heap s p)))"
    and "set (rmErrc (heap s p)) \<subseteq> set (rmErrc (heap s' p))"
proof -
  let ?st1 = "s\<lparr>listUpdate := listUpdate s @ [None]\<rparr>"
  let ?st2 = "fold (deliver (Some errClosed)) (plist ?st1) ?st1"
  let ?st3 = "case addReplyMatcher s of None \<Rightarrow> ?st2
               | Some q \<Rightarrow> fold (deliver (Some errClosed)) q ?st2"
  from assms have len: "length (listUpdate s) < listUpdateCap"
    and e: "s' = ?st3\<lparr>addReplyMatcher := None, loopRunning := False\<rparr>"
    by (auto simp: loop_close_def Let_def split: if_splits)
  show "length (listUpdate s) < listUpdateCap" by (rule len)
  show "nalloc s' = nalloc s" "plist s' = plist s" "addReplyMatcher s' = None"
    "\<not> loopRunning s'" "replyTimeout s' = replyTimeout s" "lastClock s' = lastClock s"
    "timerRunning s' = timerRunning s"
    "rmVars (heap s' p) = rmVars (heap s p)" "rmDeadline (heap s' p) = rmDeadline (heap s p)"
    "rmPtype (heap s' p) = rmPtype (heap s p)" "rmCallback (heap s' p) = rmCallback (heap s p)"
    unfolding e by (simp_all split: option.splits)
  have s2: "set (rmErrc (heap ?st2 p)) \<subseteq> insert (Some errClosed) (set (rmErrc (heap s p)))"
    using fold_deliver_errc_set [of "Some errClosed" "plist ?st1" ?st1 p] by simp
  show "set (rmErrc (heap s' p)) \<subseteq> insert (Some errClosed) (set (rmErrc (heap s p)))"
  proof (cases "addReplyMatcher s")
    case None
    with s2 show ?thesis unfolding e by simp
  next
    case (Some q)
    from fold_deliver_errc_set [of "Some errClosed" q ?st2 p] s2
    have "set (rmErrc (heap (fold (deliver (Some errClosed)) q ?st2) p))
            \<subseteq> insert (Some errClosed) (set (rmErrc (heap s p)))" by blast
    with Some show ?thesis unfolding e by simp
  qed
  have m2: "set (rmErrc (heap s p)) \<subseteq> set (rmErrc (heap ?st2 p))"
    using fold_deliver_errc_mono [of ?st1 p "Some errClosed" "plist ?st1"] by simp
  show "set (rmErrc (heap s p)) \<subseteq> set (rmErrc (heap s' p))"
  proof (cases "addReplyMatcher s")
    case None
    with m2 show ?thesis unfolding e by simp
  next
    case (Some q)
    from fold_deliver_errc_mono [of ?st2 p "Some errClosed" q] m2
    have "set (rmErrc (heap s p))
            \<subseteq> set (rmErrc (heap (fold (deliver (Some errClosed)) q ?st2) p))" by blast
    with Some show ?thesis unfolding e by simp
  qed
qed

lemma pending_fields:
  assumes "pending takeDone ident ip port ptype cb vars s = Some (p, s')"
  shows "p = nalloc s" and "nalloc s' = Suc (nalloc s)" and "plist s' = plist s"
    and "replyTimeout s' = replyTimeout s" and "lastClock s' = lastClock s"
    and "timerRunning s' = timerRunning s" and "listUpdate s' = listUpdate s"
    and "loopRunning s' = loopRunning s"
    and "queue s' = queue s \<or> queue s' = queue s @ [nalloc s]"
    and "x \<noteq> nalloc s \<Longrightarrow> heap s' x = heap s x"
    and "rmPtype (heap s' (nalloc s)) = ptype" and "rmCallback (heap s' (nalloc s)) = cb"
    and "rmVars (heap s' (nalloc s)) = vars"
    and "(queue s' = queue s \<and> addReplyMatcher s' = addReplyMatcher s
            \<and> rmErrc (heap s' (nalloc s)) = [Some errClosed])
         \<or> (queue s' = queue s @ [nalloc s] \<and> addReplyMatcher s' = Some (queue s @ [nalloc s])
            \<and> addReplyMatcher s \<noteq> None \<and> rmErrc (heap s' (nalloc s)) = [])"
    and "addReplyMatcher s = None \<Longrightarrow> addReplyMatcher s' = None"
  using assms
  by (auto simp: pending_def Let_def queue_def deliver_def split: option.splits if_splits)

lemma waiting_ok_frame: "waiting_ok s \<Longrightarrow> same_matchers s s' \<Longrightarrow> waiting_ok s'"
  by (simp add: waiting_ok_def same_matchers_def queue_def)

lemma waiting_ok_remove:
  assumes "waiting_ok s"
  shows "waiting_ok ((deliver v el s)\<lparr>plist := remove1 el (plist s)\<rparr>)"
proof -
  from assms have d: "distinct (queue s @ plist s)"
    and a: "\<forall>p \<in> set (queue s @ plist s). p < nalloc s"
    by (simp_all add: waiting_ok_def)
  have sub: "set (remove1 el (plist s)) \<subseteq> set (plist s)" by (rule set_remove1_subset)
  from d sub have "distinct (queue s @ remove1 el (plist s))" by (auto simp: distinct_remove1)
  moreover from a sub have "\<forall>p \<in> set (queue s @ remove1 el (plist s)). p < nalloc s" by auto
  ultimately show ?thesis by (simp add: waiting_ok_def queue_def)
qed

lemma waiting_ok_heap: "waiting_ok s \<Longrightarrow> waiting_ok (s\<lparr>heap := h\<rparr>)"
  by (simp add: waiting_ok_def queue_def)

lemma waiting_ok_pending:
  assumes "waiting_ok s" and "pending takeDone ident ip port ptype cb vars s = Some (p, s')"
  shows "waiting_ok s'"
proof -
  note f = pending_fields [OF assms(2)]
  from assms(1) have d: "distinct (queue s @ plist s)"
    and a: "\<forall>p \<in> set (queue s @ plist s). p < nalloc s"
    by (simp_all add: waiting_ok_def)
  from a have fresh: "nalloc s \<notin> set (queue s @ plist s)" by auto
  from f(9) show ?thesis
  proof
    assume "queue s' = queue s"
    with d a f(2,3) show ?thesis by (auto simp: waiting_ok_def intro: less_SucI)
  next
    assume "queue s' = queue s @ [nalloc s]"
    with d a fresh f(2,3) show ?thesis by (auto simp: waiting_ok_def intro: less_SucI)
  qed
qed

lemma waiting_ok_add:
  assumes "waiting_ok s" and "addReplyMatcher s = Some (p # q)"
  shows "waiting_ok (loop_add clock p (s\<lparr>addReplyMatcher := Some q, lastClock := c\<rparr>))"
  using assms by (auto simp: waiting_ok_def queue_def loop_add_def)

lemma waiting_ok_close:
  assumes "waiting_ok s" and "loop_close s = Some s'"
  shows "waiting_ok s'"
  using assms(1) loop_close_fields(1,2,3) [OF assms(2)]
  by (simp add: waiting_ok_def queue_def)

lemma waiting_ok_run:
  assumes "waiting_ok st" and "run evs st = Some st'"
  shows "waiting_ok st'"
proof (rule run_preserves [where P = waiting_ok and T = "\<lambda>ev. True", OF assms], goal_cases)
  case 1
  show ?case by (simp add: list_all_iff)
next
  case (2 s takeDone ident ip port ptype cb vars p s')
  then show ?case by (auto intro: waiting_ok_pending)
next
  case (3 s clock p q)
  then show ?case by (auto intro: waiting_ok_add)
next
  case (4 s x rest)
  then show ?case by (simp add: waiting_ok_def queue_def)
next
  case (5 s r el ok vars)
  then show ?case by (simp add: waiting_ok_heap)
next
  case (6 s r el ok vars)
  from waiting_ok_remove [where v = None and el = el, OF waiting_ok_heap [OF 6(1)]]
  show ?case by simp
next
  case (7 s x)
  then show ?case by (simp add: waiting_ok_def queue_def)
next
  case (8 s)
  then show ?case by (simp add: waiting_ok_def queue_def)
next
  case (9 s s')
  then show ?case by (auto intro: waiting_ok_close)
next
  case (10 s c)
  then show ?case by (simp add: waiting_ok_def queue_def)
next
  case (11 s x rest c)
  then show ?case by (simp add: waiting_ok_def queue_def)
next
  case (12 s l)
  then show ?case by (simp add: waiting_ok_def queue_def)
next
  case (13 s el)
  from 13(1) show ?case by (rule waiting_ok_remove)
next
  case (14 s el rest clock)
  from 14(1) show ?case by (rule waiting_ok_remove)
next
  case (15 s s')
  then show ?case by (auto intro: waiting_ok_frame)
qed


subsection \<open>The dispatcher keeps its invariant while the loop runs\<close>

lemma wfc_remove:
  assumes "wfc c" and "el \<in> set (fst (snd (snd c)))" and "v \<in> results"
  shows "wfc (core_remove v el c)"
proof -
  obtain n a pl ec where c: "c = (n, a, pl, ec)" by (cases c)
  let ?q = "case a of None \<Rightarrow> [] | Some q \<Rightarrow> q"
  from assms(1) c have d: "distinct (?q @ pl)"
    and w: "\<forall>p \<in> set (?q @ pl). p < n \<and> ec p = []"
    and r: "\<forall>p < n. p \<notin> set (?q @ pl) \<longrightarrow> (\<exists>v \<in> results. ec p = [v])"
    by simp_all
  from assms(2) c have el: "el \<in> set pl" by simp
  from d el have nq: "el \<notin> set ?q" by auto
  from d have dp: "distinct pl" by simp
  have s: "set (remove1 el pl) = set pl - {el}" using dp by (rule set_remove1_eq)
  have d': "distinct (?q @ remove1 el pl)" using d by (auto simp: s)
  have w': "\<forall>p \<in> set (?q @ remove1 el pl). p < n \<and> (ec(el := ec el @ [v])) p = []"
    using w nq by (auto simp: s)
  have r': "\<forall>p < n. p \<notin> set (?q @ remove1 el pl) \<longrightarrow> (\<exists>u \<in> results. (ec(el := ec el @ [v])) p = [u])"
  proof (intro allI impI)
    fix p assume "p < n" and np: "p \<notin> set (?q @ remove1 el pl)"
    show "\<exists>u \<in> results. (ec(el := ec el @ [v])) p = [u]"
    proof (cases "p = el")
      case True
      from w el have "ec el = []" by simp
      with True assms(3) show ?thesis by simp
    next
      case False
      with np have "p \<notin> set (?q @ pl)" by (simp add: s)
      with r \<open>p < n\<close> False show ?thesis by simp
    qed
  qed
  from d' w' r' show ?thesis unfolding c by simp
qed

lemma core_deliver_remove:
  "core ((deliver v el st)\<lparr>plist := remove1 el (plist st)\<rparr>) = core_remove v el (core st)"
  by (auto simp: core_def deliver_def)

lemma results_simps [simp]:
  "None \<in> results" "Some errTimeout \<in> results" "Some errClockWarp \<in> results"
  "Some errClosed \<in> results"
  by (simp_all add: results_def)

lemma wf_core_same: "core st' = core st \<Longrightarrow> wf_disp st \<Longrightarrow> wf_disp st'"
  by (simp add: wf_disp_def)

lemma wf_remove:
  assumes "wf_disp st" and "el \<in> set (plist st)" and "v \<in> results"
  shows "wf_disp ((deliver v el st)\<lparr>plist := remove1 el (plist st)\<rparr>)"
proof -
  from assms(2) have m: "el \<in> set (fst (snd (snd (core st))))" by (simp add: core_def)
  from assms(1) have "wfc (core st)" by (simp add: wf_disp_def)
  from wfc_remove [OF this m assms(3)] show ?thesis
    unfolding wf_disp_def core_deliver_remove .
qed

lemma wfc_fresh_closed:
  assumes "wfc (n, a, pl, ec)" and "v \<in> results"
  shows "wfc (Suc n, a, pl, ec(n := [v]))"
proof -
  define w where "w = (case a of None \<Rightarrow> [] | Some q \<Rightarrow> q) @ pl"
  from assms(1) have d: "distinct w"
    and b: "\<forall>p \<in> set w. p < n \<and> ec p = []"
    and r: "\<forall>p < n. p \<notin> set w \<longrightarrow> (\<exists>v \<in> results. ec p = [v])"
    by (simp_all add: w_def)
  have b': "\<forall>p \<in> set w. p < Suc n \<and> (ec(n := [v])) p = []"
  proof
    fix p assume "p \<in> set w"
    with b have "p < n" "ec p = []" by blast+
    then show "p < Suc n \<and> (ec(n := [v])) p = []" by simp
  qed
  have r': "\<forall>p < Suc n. p \<notin> set w \<longrightarrow> (\<exists>u \<in> results. (ec(n := [v])) p = [u])"
  proof (intro allI impI)
    fix p assume pn: "p < Suc n" and nw: "p \<notin> set w"
    show "\<exists>u \<in> results. (ec(n := [v])) p = [u]"
    proof (cases "p = n")
      case True
      with assms(2) show ?thesis by simp
    next
      case False
      with pn have "p < n" by simp
      with r nw False show ?thesis by simp
    qed
  qed
  from d b' r' show ?thesis unfolding wfc.simps w_def [symmetric] by blast
qed

lemma wfc_fresh_enqueued:
  assumes "wfc (n, Some q, pl, ec)"
  shows "wfc (Suc n, Some (q @ [n]), pl, ec(n := []))"
proof -
  from assms have d: "distinct (q @ pl)"
    and b: "\<forall>p \<in> set (q @ pl). p < n \<and> ec p = []"
    and r: "\<forall>p < n. p \<notin> set (q @ pl) \<longrightarrow> (\<exists>v \<in> results. ec p = [v])"
    by simp_all
  have fresh: "n \<notin> set (q @ pl)"
  proof
    assume "n \<in> set (q @ pl)"
    with b have "n < n" by blast
    then show False by simp
  qed
  have d': "distinct ((q @ [n]) @ pl)" using d fresh by simp
  have b': "\<forall>p \<in> set ((q @ [n]) @ pl). p < Suc n \<and> (ec(n := [])) p = []"
  proof
    fix p assume "p \<in> set ((q @ [n]) @ pl)"
    then have c: "p = n \<or> p \<in> set (q @ pl)" by auto
    show "p < Suc n \<and> (ec(n := [])) p = []"
    proof (cases "p = n")
      case True
      then show ?thesis by simp
    next
      case False
      with c have "p \<in> set (q @ pl)" by simp
      with b have "p < n" "ec p = []" by blast+
      then show ?thesis by simp
    qed
  qed
  have r': "\<forall>p < Suc n. p \<notin> set ((q @ [n]) @ pl) \<longrightarrow> (\<exists>u \<in> results. (ec(n := [])) p = [u])"
  proof (intro allI impI)
    fix p assume "p < Suc n" and np: "p \<notin> set ((q @ [n]) @ pl)"
    then have "p < n" "p \<notin> set (q @ pl)" "p \<noteq> n" by auto
    with r show "\<exists>u \<in> results. (ec(n := [])) p = [u]" by simp
  qed
  from d' b' r' show ?thesis unfolding wfc.simps option.case by blast
qed

lemma wf_pending:
  assumes "wf_disp s" and "pending takeDone ident ip port ptype cb vars s = Some (p, s')"
  shows "wf_disp s'"
proof -
  note f = pending_fields [OF assms(2)]
  from assms(1) have w: "wfc (nalloc s, addReplyMatcher s, plist s, \<lambda>p. rmErrc (heap s p))"
    by (simp add: wf_disp_def core_def)
  have ec: "\<And>v. rmErrc (heap s' (nalloc s)) = v \<Longrightarrow>
              (\<lambda>p. rmErrc (heap s' p)) = (\<lambda>p. rmErrc (heap s p))(nalloc s := v)"
  proof
    fix v x assume "rmErrc (heap s' (nalloc s)) = v"
    then show "rmErrc (heap s' x) = ((\<lambda>p. rmErrc (heap s p))(nalloc s := v)) x"
      using f(10) [of x] by (cases "x = nalloc s") simp_all
  qed
  from f(14) show ?thesis
  proof
    assume a: "queue s' = queue s \<and> addReplyMatcher s' = addReplyMatcher s
            \<and> rmErrc (heap s' (nalloc s)) = [Some errClosed]"
    then have "core s' = (Suc (nalloc s), addReplyMatcher s, plist s,
                 (\<lambda>p. rmErrc (heap s p))(nalloc s := [Some errClosed]))"
      using f(2,3) ec [of "[Some errClosed]"] by (simp add: core_def)
    moreover have "wfc (Suc (nalloc s), addReplyMatcher s, plist s,
                 (\<lambda>p. rmErrc (heap s p))(nalloc s := [Some errClosed]))"
      by (rule wfc_fresh_closed [OF w]) simp
    ultimately show ?thesis by (simp add: wf_disp_def)
  next
    assume a: "queue s' = queue s @ [nalloc s] \<and> addReplyMatcher s' = Some (queue s @ [nalloc s])
            \<and> addReplyMatcher s \<noteq> None \<and> rmErrc (heap s' (nalloc s)) = []"
    then obtain q where q: "addReplyMatcher s = Some q" by auto
    then have qq: "queue s = q" by (simp add: queue_def)
    from a qq have "core s' = (Suc (nalloc s), Some (q @ [nalloc s]), plist s,
                 (\<lambda>p. rmErrc (heap s p))(nalloc s := []))"
      using f(2,3) ec [of "[]"] by (simp add: core_def)
    moreover from w q have "wfc (nalloc s, Some q, plist s, \<lambda>p. rmErrc (heap s p))" by simp
    then have "wfc (Suc (nalloc s), Some (q @ [nalloc s]), plist s,
                 (\<lambda>p. rmErrc (heap s p))(nalloc s := []))"
      by (rule wfc_fresh_enqueued)
    ultimately show ?thesis by (simp add: wf_disp_def)
  qed
qed

lemma core_add:
  "core (loop_add clock p (st\<lparr>addReplyMatcher := Some q, lastClock := c\<rparr>))
     = (nalloc st, Some q, plist st @ [p], \<lambda>x. rmErrc (heap st x))"
  by (auto simp: core_def loop_add_def)

lemma wfc_add:
  assumes "wfc (n, Some (p # q), pl, ec)"
  shows "wfc (n, Some q, pl @ [p], ec)"
proof -
  from assms have d: "distinct ((p # q) @ pl)"
    and b: "\<forall>x \<in> set ((p # q) @ pl). x < n \<and> ec x = []"
    and r: "\<forall>x < n. x \<notin> set ((p # q) @ pl) \<longrightarrow> (\<exists>v \<in> results. ec x = [v])"
    by simp_all
  have s: "set (q @ pl @ [p]) = set ((p # q) @ pl)" by auto
  have d': "distinct (q @ pl @ [p])" using d by auto
  from d' b r show ?thesis unfolding wfc.simps option.case s by blast
qed

lemma wf_add:
  assumes "wf_disp st" and "addReplyMatcher st = Some (p # q)"
  shows "wf_disp (loop_add clock p (st\<lparr>addReplyMatcher := Some q, lastClock := c\<rparr>))"
proof -
  from assms have "wfc (nalloc st, Some (p # q), plist st, \<lambda>x. rmErrc (heap st x))"
    by (simp add: wf_disp_def core_def)
  from wfc_add [OF this] show ?thesis unfolding wf_disp_def core_add .
qed

lemma wf_run:
  assumes "loopRunning st \<longrightarrow> wf_disp st" and "run evs st = Some st'"
  shows "loopRunning st' \<longrightarrow> wf_disp st'"
proof (rule run_preserves [where P = "\<lambda>s. loopRunning s \<longrightarrow> wf_disp s" and T = "\<lambda>ev. True",
      OF assms], goal_cases)
  case 1
  show ?case by (simp add: list_all_iff)
next
  case (2 s takeDone ident ip port ptype cb vars p s')
  from 2(1) pending_fields(8) [OF 2(3)] wf_pending [OF _ 2(3)] show ?case by simp
next
  case (3 s clock p q)
  from 3(1) wf_add [OF _ 3(2)] show ?case by (simp add: loop_add_def)
next
  case (4 s x rest)
  have "core (s\<lparr>listUpdate := listUpdate s @ [x], loopSends := rest\<rparr>) = core s"
    by (simp add: core_def)
  with 4(1) show ?case by (simp add: wf_disp_def)
next
  case (5 s r el ok vars)
  have "core (s\<lparr>heap := (heap s)(el := (heap s el)\<lparr>rmVars := vars, rmReply := Some (rData r)\<rparr>)\<rparr>)
          = core s"
    by (auto simp: core_def)
  with 5(1) show ?case by (simp add: wf_disp_def)
next
  case (6 s r el ok vars)
  let ?s1 = "s\<lparr>heap := (heap s)(el := (heap s el)\<lparr>rmVars := vars, rmReply := Some (rData r)\<rparr>)\<rparr>"
  have c: "core ?s1 = core s" by (auto simp: core_def)
  show ?case
  proof
    assume "loopRunning ((deliver None el ?s1)\<lparr>plist := remove1 el (plist s)\<rparr>)"
    then have "loopRunning s" by simp
    with 6(1) c have "wf_disp ?s1" by (simp add: wf_disp_def)
    from wf_remove [OF this, of el None] 6(3)
    show "wf_disp ((deliver None el ?s1)\<lparr>plist := remove1 el (plist s)\<rparr>)" by simp
  qed
next
  case (7 s x)
  have "core (s\<lparr>loopSends := x\<rparr>) = core s" by (simp add: core_def)
  with 7(1) show ?case by (simp add: wf_disp_def)
next
  case (8 s)
  have "core (s\<lparr>closeCtx := True\<rparr>) = core s" by (simp add: core_def)
  with 8(1) show ?case by (simp add: wf_disp_def)
next
  case (9 s s')
  from loop_close_fields(4) [OF 9(2)] show ?case by simp
next
  case (10 s c)
  have "core (s\<lparr>timer := None, lastClock := c\<rparr>) = core s" by (simp add: core_def)
  with 10(1) show ?case by (simp add: wf_disp_def)
next
  case (11 s x rest c)
  have "core (s\<lparr>listUpdate := rest, lastClock := c\<rparr>) = core s" by (simp add: core_def)
  with 11(1) show ?case by (simp add: wf_disp_def)
next
  case (12 s l)
  have "core (s\<lparr>listUpdate := l, timerRunning := False, timer := None\<rparr>) = core s"
    by (simp add: core_def)
  with 12(1) show ?case by (simp add: wf_disp_def)
next
  case (13 s el)
  from 13(1) wf_remove [of s el "Some errTimeout"] 13(3) show ?case by simp
next
  case (14 s el rest clock)
  from 14(4) have "el \<in> set (plist s)" by simp
  with 14(1) wf_remove [of s el "Some errClockWarp"] show ?case by simp
next
  case (15 s s')
  from 15(2) have "core s' = core s" "loopRunning s' = loopRunning s"
    by (simp_all add: same_matchers_def core_def)
  with 15(1) show ?case by (simp add: wf_disp_def)
qed

lemma wf_init: "wf_disp (init_dispatcher h rt)"
  by (simp add: wf_disp_def core_def init_dispatcher_def)

lemma reachable_wf:
  "run evs (init_dispatcher h rt) = Some st \<Longrightarrow> loopRunning st \<Longrightarrow> wf_disp st"
  using wf_run [of "init_dispatcher h rt" evs st] wf_init [of h rt] by simp

text \<open>
  Before the loop has run its close branch, a matcher that waits (in the channel or in
  the list) has received nothing, and every other matcher has received exactly one of nil,
  \<^verbatim>\<open>errTimeout\<close>, \<^verbatim>\<open>errClockWarp\<close> and \<^verbatim>\<open>errClosed\<close>.
\<close>

lemma delivery_before_close:
  assumes "run evs (init_dispatcher h rt) = Some st" and "loopRunning st" and "p < nalloc st"
  shows "if p \<in> set (queue st @ plist st) then rmErrc (heap st p) = []
         else \<exists>v \<in> results. rmErrc (heap st p) = [v]"
proof -
  from reachable_wf [OF assms(1,2)] have "wfc (core st)" by (simp add: wf_disp_def)
  then have "\<forall>p \<in> set (queue st @ plist st). rmErrc (heap st p) = []"
    and "\<forall>p < nalloc st. p \<notin> set (queue st @ plist st) \<longrightarrow> (\<exists>v \<in> results. rmErrc (heap st p) = [v])"
    by (simp_all add: core_def queue_def)
  with assms(3) show ?thesis by simp
qed

subsection \<open>Shutdown\<close>

lemma loop_close_errc:
  assumes "distinct (queue st @ plist st)" and "loop_close st = Some st1"
  shows "rmErrc (heap st1 p)
       = rmErrc (heap st p) @ (if p \<in> set (queue st @ plist st) then [Some errClosed] else [])"
proof -
  from assms(1) have dp: "distinct (plist st)" and dq: "distinct (queue st)"
    and dis: "set (queue st) \<inter> set (plist st) = {}" by auto
  let ?st1 = "st\<lparr>listUpdate := listUpdate st @ [None]\<rparr>"
  let ?st2 = "fold (deliver (Some errClosed)) (plist ?st1) ?st1"
  let ?st3 = "case addReplyMatcher ?st2 of None \<Rightarrow> ?st2
               | Some q \<Rightarrow> fold (deliver (Some errClosed)) q ?st2"
  from assms(2) have e: "st1 = ?st3\<lparr>addReplyMatcher := None, loopRunning := False\<rparr>"
    by (auto simp: loop_close_def Let_def split: if_splits)
  have e2: "rmErrc (heap ?st2 p) = rmErrc (heap st p) @ (if p \<in> set (plist st) then [Some errClosed] else [])"
    using fold_deliver_errc [of "plist ?st1" "Some errClosed" ?st1 p] dp by simp
  show ?thesis
  proof (cases "addReplyMatcher st")
    case None
    then have "queue st = []" by (simp add: queue_def)
    with None e2 show ?thesis unfolding e by simp
  next
    case (Some q)
    then have q: "queue st = q" by (simp add: queue_def)
    from dq q have "distinct q" by simp
    from fold_deliver_errc [OF this, of "Some errClosed" ?st2 p] e2 dis q
    have "rmErrc (heap (fold (deliver (Some errClosed)) q ?st2) p)
        = rmErrc (heap st p) @ (if p \<in> set (queue st @ plist st) then [Some errClosed] else [])"
      by auto
    with Some show ?thesis unfolding e by simp
  qed
qed

lemma run_shut:
  assumes "addReplyMatcher st = None" and "run evs st = Some st'"
  shows "addReplyMatcher st' = None"
proof (rule run_preserves [where P = "\<lambda>s. addReplyMatcher s = None" and T = "\<lambda>ev. True",
      OF assms], goal_cases)
  case 1
  show ?case by (simp add: list_all_iff)
next
  case (2 s takeDone ident ip port ptype cb vars p s')
  from pending_fields(15) [OF 2(3) 2(1)] show ?case .
next
  case (3 s clock p q)
  then show ?case by simp
next
  case (9 s s')
  from loop_close_fields(3) [OF 9(2)] show ?case .
next
  case (15 s s')
  then show ?case by (simp add: same_matchers_def)
qed simp_all

lemma pending_shut:
  assumes "addReplyMatcher st = None"
  shows "\<exists>p st'. pending takeDone ident ip port ptype cb vars st = Some (p, st')
                  \<and> rmErrc (heap st' p) = [Some errClosed]"
  using assms by (simp add: pending_def Let_def deliver_def)

text \<open>
  What the close branch does when its send on \<^verbatim>\<open>listUpdate\<close> goes through: in every
  state the dispatcher reaches from its initial state, every matcher that is pending
  then (in the list or still in the channel) has received nothing so far and receives
  \<^verbatim>\<open>errClosed\<close>; and whatever happens afterwards, a call of \<^verbatim>\<open>pending\<close> returns at
  once, with a matcher whose channel holds \<^verbatim>\<open>errClosed\<close>.
\<close>

lemma close_branch_delivers:
  assumes "run evs (init_dispatcher h rt) = Some st"
    and "step Close st = Some st1"
    and "run evs2 st1 = Some st2"
  shows "(\<forall>p \<in> set (queue st @ plist st).
            rmErrc (heap st p) = [] \<and> rmErrc (heap st1 p) = [Some errClosed])
       \<and> (\<exists>p st3. pending takeDone ident ip port ptype cb vars st2 = Some (p, st3)
                   \<and> rmErrc (heap st3 p) = [Some errClosed])"
proof -
  from assms(2) have lr: "loopRunning st" and st1: "loop_close st = Some st1"
    by (auto split: if_splits)
  from reachable_wf [OF assms(1) lr] have w: "wfc (core st)" by (simp add: wf_disp_def)
  then have d: "distinct (queue st @ plist st)"
    and e: "\<forall>p \<in> set (queue st @ plist st). rmErrc (heap st p) = []"
    by (simp_all add: core_def queue_def)
  have first: "\<forall>p \<in> set (queue st @ plist st).
            rmErrc (heap st p) = [] \<and> rmErrc (heap st1 p) = [Some errClosed]"
  proof
    fix p assume p: "p \<in> set (queue st @ plist st)"
    with e have "rmErrc (heap st p) = []" by blast
    with loop_close_errc [OF d st1, of p] p
    show "rmErrc (heap st p) = [] \<and> rmErrc (heap st1 p) = [Some errClosed]" by simp
  qed
  have "addReplyMatcher st1 = None" by (rule loop_close_fields(3) [OF st1])
  from run_shut [OF this assms(3)] have "addReplyMatcher st2 = None" .
  from pending_shut [OF this] first show ?thesis by blast
qed

text \<open>
  Once the timer goroutine has returned while \<^verbatim>\<open>listUpdate\<close> is full, the channel
  stays full, whatever happens: the send at the head of the close branch never goes
  through, the loop does not return, and the matchers allocated so far are sent nothing
  any more but nil (for a reply that completes them).
\<close>

lemma close_stays_blocked:
  assumes "listUpdate_stuck st" and "loopRunning st" and "run evs st = Some st'"
  shows "listUpdate_stuck st' \<and> loopRunning st' \<and> step Close st' = None
       \<and> (\<forall>p < nalloc st. set (rmErrc (heap st' p)) \<subseteq> insert None (set (rmErrc (heap st p))))"
proof -
  let ?P = "\<lambda>s. listUpdate_stuck s \<and> loopRunning s \<and> nalloc st \<le> nalloc s
              \<and> (\<forall>p < nalloc st. set (rmErrc (heap s p)) \<subseteq> insert None (set (rmErrc (heap st p))))"
  have p0: "?P st" using assms(1,2) by auto
  have "?P st'"
  proof (rule run_preserves [where P = ?P and T = "\<lambda>ev. True", OF p0 assms(3)], goal_cases)
    case 1
    show ?case by (simp add: list_all_iff)
  next
    case (2 s takeDone ident ip port ptype cb vars p s')
    note f = pending_fields [OF 2(3)]
    from 2(1) f(2,6,7,8) have a: "listUpdate_stuck s' \<and> loopRunning s' \<and> nalloc st \<le> nalloc s'"
      by (simp add: listUpdate_stuck_def)
    have "\<forall>p < nalloc st. set (rmErrc (heap s' p)) \<subseteq> insert None (set (rmErrc (heap st p)))"
    proof (intro allI impI)
      fix x assume x: "x < nalloc st"
      with 2(1) have "x \<noteq> nalloc s" by auto
      from f(10) [OF this] 2(1) x
      show "set (rmErrc (heap s' x)) \<subseteq> insert None (set (rmErrc (heap st x)))" by simp
    qed
    with a show ?case by simp
  next
    case (3 s clock p q)
    then show ?case by (simp add: listUpdate_stuck_def loop_add_def)
  next
    case (4 s x rest)
    then show ?case by (simp add: listUpdate_stuck_def)
  next
    case (5 s r el ok vars)
    then show ?case by (simp add: listUpdate_stuck_def)
  next
    case (6 s r el ok vars)
    then show ?case by (auto simp: listUpdate_stuck_def)
  next
    case (7 s x)
    then show ?case by (simp add: listUpdate_stuck_def)
  next
    case (8 s)
    then show ?case by (simp add: listUpdate_stuck_def)
  next
    case (9 s s')
    from 9(1) loop_close_fields(8) [OF 9(2)] show ?case by (simp add: listUpdate_stuck_def)
  next
    case (10 s c)
    then show ?case by (simp add: listUpdate_stuck_def)
  next
    case (11 s x rest c)
    then show ?case by (simp add: listUpdate_stuck_def)
  next
    case (12 s l)
    then show ?case by (simp add: listUpdate_stuck_def)
  next
    case (13 s el)
    then show ?case by (simp add: listUpdate_stuck_def)
  next
    case (14 s el rest clock)
    then show ?case by (simp add: listUpdate_stuck_def)
  next
    case (15 s s')
    then show ?case by (simp add: listUpdate_stuck_def same_matchers_def)
  qed
  moreover from this have "step Close st' = None"
    by (simp add: listUpdate_stuck_def loop_close_def)
  ultimately show ?thesis by simp
qed

text \<open>
  C5, on the code. Eleven requests are registered and added to the list, and the timer
  goroutine has handled one element of \<^verbatim>\<open>listUpdate\<close> only: the channel holds ten
  elements and is full. The context is cancelled; the timer goroutine takes
  \<^verbatim>\<open>closeCtx.Done()\<close> and returns. The main goroutine is at its \<^verbatim>\<open>select\<close> with
  eleven matchers in the list, none of which has received anything, and its close branch
  cannot get past its first statement, the send of nil on \<^verbatim>\<open>listUpdate\<close>: no
  matcher receives \<^verbatim>\<open>errClosed\<close>. By \<open>close_stays_blocked\<close> this does not change
  any more.
\<close>

theorem close_blocked_by_full_listUpdate:
  "run full_channel_run disp0 \<noteq> None
   \<and> closeCtx (the (run full_channel_run disp0))
   \<and> loopRunning (the (run full_channel_run disp0))
   \<and> loopSends (the (run full_channel_run disp0)) = []
   \<and> plist (the (run full_channel_run disp0)) = [0, 1, 2, 3, 4, 5, 6, 7, 8, 9, 10]
   \<and> map (\<lambda>p. rmErrc (heap (the (run full_channel_run disp0)) p))
          (plist (the (run full_channel_run disp0))) = replicate 11 []
   \<and> length (listUpdate (the (run full_channel_run disp0))) = 10
   \<and> \<not> timerRunning (the (run full_channel_run disp0))
   \<and> listUpdate_stuck (the (run full_channel_run disp0))
   \<and> step Close (the (run full_channel_run disp0)) = None"
  by (simp add: full_channel_run_def listUpdate_stuck_def run_defs replicate_num)

text \<open>
  C4, on the code. A matcher is pending and the timer is set for its deadline. The context
  is cancelled and the loop takes its close branch: the matcher receives \<^verbatim>\<open>errClosed\<close>
  and stays in the list. The timer goroutine has not returned yet and takes its
  \<^verbatim>\<open>timeout.C\<close> case: the deadline has passed, and it sends \<^verbatim>\<open>errTimeout\<close> to the
  same matcher, a second value.
\<close>

theorem shutdown_race_two_values:
  "run shutdown_run disp0 \<noteq> None
   \<and> rmErrc (heap (the (run shutdown_run disp0)) 0) = [Some errClosed, Some errTimeout]"
  by (simp add: shutdown_run_def run_defs)

subsection \<open>Deadlines on the monotonic clock\<close>















subsection \<open>Loops over the list that end at the first removal\<close>

text \<open>
  C3, on the code. Two \<^verbatim>\<open>findnode\<close> calls to the same node are pending (matchers 0 and
  1), and both have received a first Neighbors packet of 12 entries. The second packet, of
  4 entries, matches both. \<^verbatim>\<open>handleReply\<close> returns true; matcher 0 reaches 16
  entries, receives nil and is removed; the loop ends there, and the callback of matcher 1
  is not invoked: its count stays at 12 and it stays in the list.
\<close>

theorem gotreply_skips_second_matcher:
  "run two_findnode_run disp0 \<noteq> None
   \<and> plist (the (run two_findnode_run disp0)) = [0, 1]
   \<and> matches (heap (the (run two_findnode_run disp0)) 0) (neighbors_reply 4)
   \<and> matches (heap (the (run two_findnode_run disp0)) 1) (neighbors_reply 4)
   \<and> rmVars (heap (the (run two_findnode_run disp0)) 1) = (replicate 12 node9, 12)
   \<and> handleReply False 0 (addrIP addr0) (addrPort addr0) (rData (neighbors_reply 4))
        (the (run two_findnode_run disp0)) \<noteq> None
   \<and> fst (the (handleReply False 0 (addrIP addr0) (addrPort addr0) (rData (neighbors_reply 4))
        (the (run two_findnode_run disp0))))
   \<and> rmErrc (heap (snd (the (handleReply False 0 (addrIP addr0) (addrPort addr0)
        (rData (neighbors_reply 4)) (the (run two_findnode_run disp0))))) 0) = [None]
   \<and> plist (snd (the (handleReply False 0 (addrIP addr0) (addrPort addr0)
        (rData (neighbors_reply 4)) (the (run two_findnode_run disp0))))) = [1]
   \<and> rmVars (heap (snd (the (handleReply False 0 (addrIP addr0) (addrPort addr0)
        (rData (neighbors_reply 4)) (the (run two_findnode_run disp0))))) 1)
       = (replicate 12 node9, 12)"
  by (simp add: two_findnode_run_def run_defs replicate_num)

text \<open>
  What \<^verbatim>\<open>findnode\<close> itself does with a timeout: when its matcher has been sent
  \<^verbatim>\<open>errTimeout\<close> (and the request was sent without error), it returns the nodes
  collected so far, with a nil error if the \<^verbatim>\<open>reply\<close> field of the matcher is set and
  with \<^verbatim>\<open>errTimeout\<close> if it is not. The dispatcher sets the field when it runs the
  callback of the matcher, which it does for a matching reply when the matcher is at the
  head of the list.
\<close>

lemma findnode_result_timeout:
  assumes "rmErrc (heap st rm) = Some errTimeout # rest"
  shows "findnode_result None rm st =
           Some (fst (rmVars (heap st rm)),
                 if rmReply (heap st rm) = None then Some errTimeout else None)"
  using assms by (simp add: findnode_result_def Let_def)

lemma reply_loop_reply_kept:
  "rmReply (heap st p) = Some (rData r) \<Longrightarrow>
   rmReply (heap (fst (reply_loop r els (st, m, rs))) p) = Some (rData r)"
proof (induction els arbitrary: st m rs)
  case Nil
  then show ?case by simp
next
  case (Cons el els)
  show ?case
  proof (cases "rmPtype (heap st el) = Kind (rData r) \<and> ipEqual (rmIP (heap st el)) (rIP r)
                  \<and> rmPort (heap st el) = rPort r")
    case False
    with Cons show ?thesis by auto
  next
    case True
    obtain ok requestDone vars where
      cb: "rmCallback (heap st el) (rmVars (heap st el)) (rData r) = ((ok, requestDone), vars)"
      by (metis prod.exhaust)
    let ?st1 = "st\<lparr>heap := (heap st)(el := (heap st el)\<lparr>rmVars := vars, rmReply := Some (rData r)\<rparr>)\<rparr>"
    have k: "rmReply (heap ?st1 p) = Some (rData r)" using Cons.prems by simp
    show ?thesis
    proof (cases requestDone)
      case True
      with \<open>rmPtype (heap st el) = Kind (rData r) \<and> _\<close> cb k show ?thesis
        by (simp add: Let_def)
    next
      case False
      have "rmReply (heap (?st1\<lparr>contTimeouts := 0\<rparr>) p) = Some (rData r)" using k by simp
      from Cons.IH [OF this] False True cb show ?thesis by (simp add: Let_def)
    qed
  qed
qed

lemma gotreply_head_sets_reply:
  assumes "plist st = p # rest" and "matches (heap st p) r"
  shows "rmReply (heap (snd (loop_gotreply r st)) p) = Some (rData r)"
proof -
  obtain ok requestDone vars where
    cb: "rmCallback (heap st p) (rmVars (heap st p)) (rData r) = ((ok, requestDone), vars)"
    by (metis prod.exhaust)
  let ?st1 = "st\<lparr>heap := (heap st)(p := (heap st p)\<lparr>rmVars := vars, rmReply := Some (rData r)\<rparr>)\<rparr>"
  have k: "rmReply (heap (?st1\<lparr>contTimeouts := 0\<rparr>) p) = Some (rData r)" by simp
  have "rmReply (heap (fst (reply_loop r (p # rest) (st, False, []))) p) = Some (rData r)"
  proof (cases requestDone)
    case True
    with assms(2) cb show ?thesis by (simp add: matches_def Let_def)
  next
    case False
    with assms(2) cb reply_loop_reply_kept [OF k, of rest ok "[]"] show ?thesis
      by (simp add: matches_def Let_def)
  qed
  then show ?thesis
    unfolding loop_gotreply_def assms(1) by (simp add: split_beta del: reply_loop.simps)
qed

text \<open>
  C7, on the code. Two \<^verbatim>\<open>findnode\<close> calls to the same node: the first (matcher 0) has
  received a Neighbors packet of 12 entries when the second (matcher 1) is registered,
  with its deadline 850 ms after the start. Both wait in the list when the node's next
  Neighbors packet, of 4 entries, arrives; it matches matcher 1, and \<^verbatim>\<open>handleReply\<close>
  returns true. Matcher 0 reaches 16 entries and is removed, the loop of the dispatcher
  ends there, and matcher 1 is not given the packet: its \<^verbatim>\<open>reply\<close> field stays nil.
  The timer is set for matcher 1 and fires at its deadline: the second \<^verbatim>\<open>findnode\<close>
  returns \<^verbatim>\<open>errTimeout\<close> and no node, although a Neighbors reply for it was received
  before the timeout.
\<close>

theorem findnode_times_out_after_reply:
  "run late_reply_start disp0 \<noteq> None
   \<and> plist (the (run late_reply_start disp0)) = [0, 1]
   \<and> matches (heap (the (run late_reply_start disp0)) 1) (neighbors_reply 4)
   \<and> rmDeadline (heap (the (run late_reply_start disp0)) 1) = time_Now (at (850 * millisecond))
   \<and> handleReply False 0 (addrIP addr0) (addrPort addr0) (rData (neighbors_reply 4))
        (the (run late_reply_start disp0)) \<noteq> None
   \<and> fst (the (handleReply False 0 (addrIP addr0) (addrPort addr0) (rData (neighbors_reply 4))
        (the (run late_reply_start disp0))))
   \<and> run late_reply_rest
        (snd (the (handleReply False 0 (addrIP addr0) (addrPort addr0) (rData (neighbors_reply 4))
           (the (run late_reply_start disp0))))) \<noteq> None
   \<and> rmErrc (heap (the (run late_reply_rest
        (snd (the (handleReply False 0 (addrIP addr0) (addrPort addr0) (rData (neighbors_reply 4))
           (the (run late_reply_start disp0))))))) 1) = [Some errTimeout]
   \<and> rmReply (heap (the (run late_reply_rest
        (snd (the (handleReply False 0 (addrIP addr0) (addrPort addr0) (rData (neighbors_reply 4))
           (the (run late_reply_start disp0))))))) 1) = None
   \<and> findnode_result None 1 (the (run late_reply_rest
        (snd (the (handleReply False 0 (addrIP addr0) (addrPort addr0) (rData (neighbors_reply 4))
           (the (run late_reply_start disp0)))))))
       = Some ([], Some errTimeout)"
  by (simp add: late_reply_start_def late_reply_rest_def findnode_result_def run_defs replicate_num)

subsection \<open>What findnode collects\<close>


















end
